theory Spec2Isabelle
  imports Main "HOL-Library.AList"
begin

section \<open>The JSON-file user store of the Express demo (storage/jsonStore.ts)\<close>

text \<open>
  The store keeps an in-memory \<open>Map<string, User>\<close>, a backing file and a promise chain
  \<open>writeQueue\<close> that serialises the file writes. The model below follows the class
  \<open>JsonStore\<close> method by method. Telemetry calls (spans, attributes) have no effect on
  the store and are left out.
\<close>

subsection \<open>Strings, errors, records\<close>

text \<open>
  A JavaScript string is a sequence of UTF-16 code units; a code unit is modelled by its
  number. \<open>str\<close> embeds an ASCII literal.
\<close>

type_synonym jsstring = "nat list"

definition str :: "string \<Rightarrow> jsstring" where
  "str s = map of_char s"

text \<open>
  The exceptions the store can see: a Node.js \<open>ErrnoException\<close> with its \<open>code\<close>
  (thrown by \<open>fs\<close>), the \<open>SyntaxError\<close> of \<open>JSON.parse\<close>, a \<open>TypeError\<close> of the
  runtime, and the two error classes the module declares.
\<close>

datatype error =
    ErrnoException string
  | SyntaxError
  | TypeError
  | UserNotFoundError
  | UserExistsError

text \<open>\<open>nodeError.code\<close>: only an \<open>ErrnoException\<close> carries one.\<close>

fun code :: "error \<Rightarrow> string option" where
  "code (ErrnoException c) = Some c"
| "code _ = None"

text \<open>
  The type \<open>User\<close> of models/user.ts declares five string properties. At run time a
  \<open>User\<close> is an object, and an object has its properties in an order of its own, the
  order in which they were created: \<open>{id, name, email, created_at, updated_at}\<close> in the
  handlers, the order of the text for an object that \<open>JSON.parse\<close> made. A \<open>key_order\<close>
  is such an order of the five keys.
\<close>

definition user_keys :: "jsstring list" where
  "user_keys = [str ''id'', str ''name'', str ''email'', str ''created_at'', str ''updated_at'']"

typedef key_order = "{ks. distinct ks \<and> set ks = set user_keys}"
  morphisms keys_of Abs_key_order
proof
  show "user_keys \<in> {ks. distinct ks \<and> set ks = set user_keys}"
    by (simp add: user_keys_def str_def)
qed

setup_lifting type_definition_key_order

instantiation key_order :: equal
begin

lift_definition equal_key_order :: "key_order \<Rightarrow> key_order \<Rightarrow> bool" is "(=)" .

instance
  by standard (transfer, simp)

end

text \<open>The order of the type declaration, and the order a list of keys gives.\<close>

lift_definition declared_keys :: key_order is user_keys
  by (simp add: user_keys_def str_def)

lift_definition key_order_of :: "jsstring list \<Rightarrow> key_order" is
  "\<lambda>ks. if distinct ks \<and> set ks = set user_keys then ks else user_keys"
  by (simp add: user_keys_def str_def)

text \<open>
  A \<open>User\<close> object: the values of its five properties (\<open>id\<close> is written \<open>id'\<close>) and the
  order of its own property keys.
\<close>

record User =
  id' :: jsstring
  name :: jsstring
  email :: jsstring
  created_at :: jsstring
  updated_at :: jsstring
  own_keys :: key_order

subsection \<open>The JavaScript Map\<close>

text \<open>
  A \<open>Map\<close> iterates in insertion order: it is an association list. \<open>set\<close> on a key that
  is present replaces the value in place, on a new key it appends; \<open>delete\<close> removes the
  entry. \<open>new Map(entries)\<close> sets the entries one after the other.
\<close>

type_synonym ('k, 'v) jsmap = "('k \<times> 'v) list"

definition map_get :: "('k, 'v) jsmap \<Rightarrow> 'k \<Rightarrow> 'v option" where
  "map_get m k = map_of m k"

definition map_has :: "('k, 'v) jsmap \<Rightarrow> 'k \<Rightarrow> bool" where
  "map_has m k = (map_of m k \<noteq> None)"

definition map_set :: "('k, 'v) jsmap \<Rightarrow> 'k \<Rightarrow> 'v \<Rightarrow> ('k, 'v) jsmap" where
  "map_set m k v = AList.update k v m"

definition map_delete :: "('k, 'v) jsmap \<Rightarrow> 'k \<Rightarrow> ('k, 'v) jsmap" where
  "map_delete m k = AList.delete k m"

definition map_values :: "('k, 'v) jsmap \<Rightarrow> 'v list" where
  "map_values m = map snd m"

definition new_Map :: "('k \<times> 'v) list \<Rightarrow> ('k, 'v) jsmap" where
  "new_Map entries = foldl (\<lambda>m (k, v). map_set m k v) [] entries"

subsection \<open>JSON values and \<open>JSON.stringify(value, null, 2)\<close>\<close>

text \<open>
  The values \<open>JSON.parse\<close> can return. A number keeps its lexeme: the store never
  computes with one. An object keeps its members in the order of the text.
\<close>

datatype json =
    JNull
  | JBool bool
  | JNumber jsstring
  | JString jsstring
  | JArray "json list"
  | JObject "(jsstring \<times> json) list"

text \<open>
  \<open>QuoteJSONString\<close> of ECMAScript: backspace, tab, line feed, form feed, carriage
  return, the double quote (34) and the backslash (92) get their two-character escapes;
  any other unit below 32 and any surrogate that is not part of a pair is written as
  \<open>\uXXXX\<close> with lower-case hexadecimal digits; every other unit is copied.
\<close>

definition hex_digit :: "nat \<Rightarrow> nat" where
  "hex_digit d = (if d < 10 then 48 + d else 87 + d)"

definition unicode_escape :: "nat \<Rightarrow> jsstring" where
  "unicode_escape c =
     [92, 117, hex_digit (c div 4096 mod 16), hex_digit (c div 256 mod 16),
      hex_digit (c div 16 mod 16), hex_digit (c mod 16)]"

definition is_high_surrogate :: "nat \<Rightarrow> bool" where
  "is_high_surrogate c = (55296 \<le> c \<and> c \<le> 56319)"

definition is_low_surrogate :: "nat \<Rightarrow> bool" where
  "is_low_surrogate c = (56320 \<le> c \<and> c \<le> 57343)"

fun quote_units :: "jsstring \<Rightarrow> jsstring" where
  "quote_units [] = []"
| "quote_units (c # cs) =
     (if c = 8 then [92, 98] @ quote_units cs
      else if c = 9 then [92, 116] @ quote_units cs
      else if c = 10 then [92, 110] @ quote_units cs
      else if c = 12 then [92, 102] @ quote_units cs
      else if c = 13 then [92, 114] @ quote_units cs
      else if c = 34 then [92, 34] @ quote_units cs
      else if c = 92 then [92, 92] @ quote_units cs
      else if c < 32 then unicode_escape c @ quote_units cs
      else if is_high_surrogate c then
        (case cs of
           [] \<Rightarrow> unicode_escape c
         | d # ds \<Rightarrow>
             if is_low_surrogate d then c # d # quote_units ds
             else unicode_escape c @ quote_units cs)
      else if is_low_surrogate c then unicode_escape c @ quote_units cs
      else c # quote_units cs)"

definition QuoteJSONString :: "jsstring \<Rightarrow> jsstring" where
  "QuoteJSONString s = [34] @ quote_units s @ [34]"

fun join :: "jsstring \<Rightarrow> jsstring list \<Rightarrow> jsstring" where
  "join sep [] = []"
| "join sep [x] = x"
| "join sep (x # y # ys) = x @ sep @ join sep (y # ys)"

text \<open>
  \<open>SerializeJSONProperty\<close> with a gap of two spaces: an empty array is \<open>[]\<close>, any other
  array puts each element on a line of its own, indented by the gap, with \<open>,\<close> and a
  line feed between elements; an object likewise, each member written as the quoted
  key, a colon, a space and the value.
\<close>

fun stringify :: "jsstring \<Rightarrow> json \<Rightarrow> jsstring" where
  "stringify indent JNull = str ''null''"
| "stringify indent (JBool b) = (if b then str ''true'' else str ''false'')"
| "stringify indent (JNumber n) = n"
| "stringify indent (JString s) = QuoteJSONString s"
| "stringify indent (JArray xs) =
     (if xs = [] then str ''[]''
      else [91, 10] @ (indent @ [32, 32]) @
           join ([44, 10] @ (indent @ [32, 32])) (map (stringify (indent @ [32, 32])) xs) @
           [10] @ indent @ [93])"
| "stringify indent (JObject ms) =
     (if ms = [] then str ''{}''
      else [123, 10] @ (indent @ [32, 32]) @
           join ([44, 10] @ (indent @ [32, 32]))
             (map (\<lambda>(k, v). QuoteJSONString k @ [58, 32] @ stringify (indent @ [32, 32]) v) ms) @
           [10] @ indent @ [125])"

definition JSON_stringify :: "json \<Rightarrow> jsstring" where
  "JSON_stringify v = stringify [] v"

subsection \<open>\<open>JSON.parse\<close>\<close>

text \<open>
  The JSON grammar: white space is space, tab, line feed and carriage return; a string
  may not hold a raw unit below 32; the escapes are those of the grammar, with
  \<open>\uXXXX\<close> in either case of the hexadecimal digits.
\<close>

definition is_ws :: "nat \<Rightarrow> bool" where
  "is_ws c = (c = 32 \<or> c = 9 \<or> c = 10 \<or> c = 13)"

fun skip_ws :: "jsstring \<Rightarrow> jsstring" where
  "skip_ws [] = []"
| "skip_ws (c # cs) = (if is_ws c then skip_ws cs else c # cs)"

definition hex_val :: "nat \<Rightarrow> nat option" where
  "hex_val c =
     (if 48 \<le> c \<and> c \<le> 57 then Some (c - 48)
      else if 97 \<le> c \<and> c \<le> 102 then Some (c - 87)
      else if 65 \<le> c \<and> c \<le> 70 then Some (c - 55)
      else None)"

fun hex4 :: "jsstring \<Rightarrow> nat option" where
  "hex4 [a, b, c, d] =
     (case (hex_val a, hex_val b, hex_val c, hex_val d) of
        (Some x, Some y, Some z, Some u) \<Rightarrow> Some (x * 4096 + y * 256 + z * 16 + u)
      | _ \<Rightarrow> None)"
| "hex4 _ = None"

definition unescape :: "nat \<Rightarrow> nat option" where
  "unescape e =
     (if e = 34 then Some 34
      else if e = 92 then Some 92
      else if e = 47 then Some 47
      else if e = 98 then Some 8
      else if e = 102 then Some 12
      else if e = 110 then Some 10
      else if e = 114 then Some 13
      else if e = 116 then Some 9
      else None)"

definition cons_unit ::
  "nat \<Rightarrow> (jsstring \<times> jsstring) option \<Rightarrow> (jsstring \<times> jsstring) option" where
  "cons_unit c r = map_option (\<lambda>(s, rest). (c # s, rest)) r"

text \<open>The units of a string up to its closing quote, and the text after it.\<close>

fun parse_chars :: "jsstring \<Rightarrow> (jsstring \<times> jsstring) option" where
  "parse_chars [] = None"
| "parse_chars (c # cs) =
     (if c = 34 then Some ([], cs)
      else if c = 92 then
        (case cs of
           [] \<Rightarrow> None
         | e # r \<Rightarrow>
             if e = 117 then
               (case hex4 (take 4 r) of
                  None \<Rightarrow> None
                | Some u \<Rightarrow> cons_unit u (parse_chars (drop 4 r)))
             else
               (case unescape e of
                  None \<Rightarrow> None
                | Some u \<Rightarrow> cons_unit u (parse_chars r)))
      else if c < 32 then None
      else cons_unit c (parse_chars cs))"

definition is_digit :: "nat \<Rightarrow> bool" where
  "is_digit c = (48 \<le> c \<and> c \<le> 57)"

definition scan_digits :: "jsstring \<Rightarrow> (jsstring \<times> jsstring) option" where
  "scan_digits cs =
     (if takeWhile is_digit cs = [] then None
      else Some (takeWhile is_digit cs, dropWhile is_digit cs))"

definition scan_int :: "jsstring \<Rightarrow> (jsstring \<times> jsstring) option" where
  "scan_int cs =
     (case cs of
        [] \<Rightarrow> None
      | c # r \<Rightarrow> if c = 48 then Some ([48], r) else scan_digits cs)"

definition scan_frac :: "jsstring \<Rightarrow> (jsstring \<times> jsstring) option" where
  "scan_frac cs =
     (case cs of
        [] \<Rightarrow> Some ([], cs)
      | c # r \<Rightarrow>
          if c = 46 then map_option (\<lambda>(ds, rest). (c # ds, rest)) (scan_digits r)
          else Some ([], cs))"

definition scan_exp :: "jsstring \<Rightarrow> (jsstring \<times> jsstring) option" where
  "scan_exp cs =
     (case cs of
        [] \<Rightarrow> Some ([], cs)
      | c # r \<Rightarrow>
          if c = 101 \<or> c = 69 then
            (case r of
               [] \<Rightarrow> None
             | s # r' \<Rightarrow>
                 if s = 43 \<or> s = 45
                 then map_option (\<lambda>(ds, rest). (c # s # ds, rest)) (scan_digits r')
                 else map_option (\<lambda>(ds, rest). (c # ds, rest)) (scan_digits r))
          else Some ([], cs))"

definition parse_number :: "jsstring \<Rightarrow> (json \<times> jsstring) option" where
  "parse_number cs =
     (let (sign, r0) =
            (case cs of [] \<Rightarrow> ([], cs) | c # r \<Rightarrow> if c = 45 then ([c], r) else ([], cs))
      in case scan_int r0 of
           None \<Rightarrow> None
         | Some (i, r1) \<Rightarrow>
             (case scan_frac r1 of
                None \<Rightarrow> None
              | Some (f, r2) \<Rightarrow>
                  (case scan_exp r2 of
                     None \<Rightarrow> None
                   | Some (e, r3) \<Rightarrow> Some (JNumber (sign @ i @ f @ e), r3))))"

definition parse_literal :: "jsstring \<Rightarrow> (json \<times> jsstring) option" where
  "parse_literal cs =
     (if take 4 cs = str ''true'' then Some (JBool True, drop 4 cs)
      else if take 5 cs = str ''false'' then Some (JBool False, drop 5 cs)
      else if take 4 cs = str ''null'' then Some (JNull, drop 4 cs)
      else parse_number cs)"

text \<open>
  The recursive descent, with fuel for the nesting: every call spends one unit.
  \<open>parse_elements\<close> reads the elements of an array after its bracket, \<open>parse_members\<close>
  the members of an object after its brace.
\<close>

fun parse_value :: "nat \<Rightarrow> jsstring \<Rightarrow> (json \<times> jsstring) option"
and parse_elements :: "nat \<Rightarrow> jsstring \<Rightarrow> (json list \<times> jsstring) option"
and parse_members :: "nat \<Rightarrow> jsstring \<Rightarrow> ((jsstring \<times> json) list \<times> jsstring) option"
where
  "parse_value 0 cs = None"
| "parse_value (Suc n) cs =
     (case skip_ws cs of
        [] \<Rightarrow> None
      | c # r \<Rightarrow>
          if c = 34 then map_option (\<lambda>(s, rest). (JString s, rest)) (parse_chars r)
          else if c = 91 then
            (case skip_ws r of
               [] \<Rightarrow> None
             | d # r' \<Rightarrow>
                 if d = 93 then Some (JArray [], r')
                 else map_option (\<lambda>(xs, rest). (JArray xs, rest)) (parse_elements n r))
          else if c = 123 then
            (case skip_ws r of
               [] \<Rightarrow> None
             | d # r' \<Rightarrow>
                 if d = 125 then Some (JObject [], r')
                 else map_option (\<lambda>(ms, rest). (JObject ms, rest)) (parse_members n r))
          else parse_literal (c # r))"
| "parse_elements 0 cs = None"
| "parse_elements (Suc n) cs =
     (case parse_value n cs of
        None \<Rightarrow> None
      | Some (v, r) \<Rightarrow>
          (case skip_ws r of
             [] \<Rightarrow> None
           | c # r' \<Rightarrow>
               if c = 44 then map_option (\<lambda>(xs, rest). (v # xs, rest)) (parse_elements n r')
               else if c = 93 then Some ([v], r')
               else None))"
| "parse_members 0 cs = None"
| "parse_members (Suc n) cs =
     (case skip_ws cs of
        [] \<Rightarrow> None
      | q # r \<Rightarrow>
          if q \<noteq> 34 then None
          else
            (case parse_chars r of
               None \<Rightarrow> None
             | Some (k, r1) \<Rightarrow>
                 (case skip_ws r1 of
                    [] \<Rightarrow> None
                  | c # r2 \<Rightarrow>
                      if c \<noteq> 58 then None
                      else
                        (case parse_value n r2 of
                           None \<Rightarrow> None
                         | Some (v, r3) \<Rightarrow>
                             (case skip_ws r3 of
                                [] \<Rightarrow> None
                              | d # r4 \<Rightarrow>
                                  if d = 44
                                  then map_option (\<lambda>(ms, rest). ((k, v) # ms, rest))
                                         (parse_members n r4)
                                  else if d = 125 then Some ([(k, v)], r4)
                                  else None)))))"

text \<open>
  \<open>JSON.parse\<close>: one value, then only white space. \<open>None\<close> is the \<open>SyntaxError\<close>.
  A call of the descent consumes a unit of the text at least every second step, so twice
  the length of the text is fuel enough.
\<close>

definition JSON_parse :: "jsstring \<Rightarrow> json option" where
  "JSON_parse text =
     (case parse_value (2 * length text + 2) text of
        None \<Rightarrow> None
      | Some (v, rest) \<Rightarrow> if skip_ws rest = [] then Some v else None)"

subsection \<open>A \<open>User\<close> as a JSON value\<close>

text \<open>
  \<open>JSON.stringify\<close> writes the own properties of an object in the object's own order:
  \<open>user_prop u k\<close> is the value of the property \<open>k\<close> of the \<open>User\<close> object \<open>u\<close>, and
  \<open>user_json u\<close> is the JSON value that is written for \<open>u\<close>.
\<close>

definition user_prop :: "User \<Rightarrow> jsstring \<Rightarrow> jsstring" where
  "user_prop u k =
     (if k = str ''id'' then id' u
      else if k = str ''name'' then name u
      else if k = str ''email'' then email u
      else if k = str ''created_at'' then created_at u
      else updated_at u)"

definition user_json :: "User \<Rightarrow> json" where
  "user_json u = JObject (map (\<lambda>k. (k, JString (user_prop u k))) (keys_of (own_keys u)))"

text \<open>
  \<open>JSON.parse(data) as User[]\<close> is an unchecked cast: nothing is validated. A parsed
  value is a \<open>User\<close> of this model when it is an object with exactly the five properties
  of the type, each a string, in any order. \<open>object_keys\<close> are the keys of an object in
  the order of the text, \<open>get_string\<close> reads a string property, and \<open>as_User\<close> accepts
  the value when the record read from it, with the keys in the order of the value, is
  written back as that value. Any other value (a number, an object with a property
  missing, of another type or in excess) is loaded by the code as well, and is outside
  this model: see \<open>IllTyped\<close> below.
\<close>

definition object_keys :: "json \<Rightarrow> jsstring list" where
  "object_keys j = (case j of JObject ms \<Rightarrow> map fst ms | _ \<Rightarrow> [])"

definition get_string :: "json \<Rightarrow> jsstring \<Rightarrow> jsstring" where
  "get_string j k =
     (case j of
        JObject ms \<Rightarrow> (case map_of ms k of Some (JString s) \<Rightarrow> s | _ \<Rightarrow> [])
      | _ \<Rightarrow> [])"

definition as_User :: "json \<Rightarrow> User option" where
  "as_User j =
     (let u = \<lparr>id' = get_string j (str ''id''), name = get_string j (str ''name''),
               email = get_string j (str ''email''),
               created_at = get_string j (str ''created_at''),
               updated_at = get_string j (str ''updated_at''),
               own_keys = key_order_of (object_keys j)\<rparr>
      in if user_json u = j then Some u else None)"

fun as_Users :: "json list \<Rightarrow> User list option" where
  "as_Users [] = Some []"
| "as_Users (j # js) =
     (case as_User j of
        None \<Rightarrow> None
      | Some u \<Rightarrow> map_option ((#) u) (as_Users js))"

subsection \<open>Promises, the file system and the store state\<close>

text \<open>
  A promise of the write chain is a cell of a heap, addressed by its index. A cell made by
  \<open>p.then(action)\<close> is \<open>Pending p\<close> until its reaction job runs; the job calls the action
  when \<open>p\<close> is fulfilled, and rejects the cell with the reason of \<open>p\<close>, without calling the
  action, when \<open>p\<close> is rejected. While the action's \<open>fs.writeFile\<close> is in flight the cell
  is \<open>Running data\<close>.
\<close>

datatype promise =
    Pending nat
  | Running jsstring
  | Fulfilled
  | Rejected error

text \<open>
  The backing file as \<open>fs\<close> sees it: the parent directory is missing and cannot be made
  (with the error code of \<open>mkdir\<close>), the file is absent, the file cannot be read (with
  the error code of \<open>readFile\<close>), or it has a content (the text \<open>readFile\<close> decodes).
\<close>

datatype fs =
    DirUncreatable string
  | FileAbsent
  | FileUnreadable string
  | FileContent jsstring

definition mkdir :: "fs \<Rightarrow> error + unit" where
  "mkdir d = (case d of DirUncreatable c \<Rightarrow> Inl (ErrnoException c) | _ \<Rightarrow> Inr ())"

definition readFile :: "fs \<Rightarrow> error + jsstring" where
  "readFile d =
     (case d of
        DirUncreatable c \<Rightarrow> Inl (ErrnoException ''ENOENT'')
      | FileAbsent \<Rightarrow> Inl (ErrnoException ''ENOENT'')
      | FileUnreadable c \<Rightarrow> Inl (ErrnoException c)
      | FileContent data \<Rightarrow> Inr data)"

text \<open>
  \<open>StoreState\<close> (filePath, users, writeQueue) together with what it refers to: the
  promise heap and the disk. \<open>started\<close> is a ghost log of the promises whose persist
  action has been called, in the order of the calls.
\<close>

record world =
  filePath :: string
  users :: "(jsstring, User) jsmap"
  writeQueue :: nat
  promises :: "promise list"
  disk :: fs
  started :: "nat list"

definition cell :: "world \<Rightarrow> nat \<Rightarrow> promise option" where
  "cell w h = (if h < length (promises w) then Some (promises w ! h) else None)"

text \<open>The constructor: an empty map and \<open>Promise.resolve()\<close>, the cell 0.\<close>

definition new_JsonStore :: "string \<Rightarrow> fs \<Rightarrow> world" where
  "new_JsonStore path d =
     \<lparr>filePath = path, users = [], writeQueue = 0, promises = [Fulfilled],
      disk = d, started = []\<rparr>"

subsection \<open>\<open>load\<close> and \<open>init\<close>\<close>

text \<open>
  What an \<open>async\<close> method of the start-up path does: it returns, it throws, or (only
  \<open>load\<close>, after its cast) it returns with values in the map that are no \<open>User\<close>, where
  this model of typed records stops.
\<close>

datatype 'a outcome =
    Returns 'a
  | Throws error
  | IllTyped

text \<open>
  The \<open>try\<close> block of \<open>load\<close>. \<open>users.map\<close> throws a \<open>TypeError\<close> when the parsed value
  is not an array, and the callback's \<open>user.id\<close> throws one on \<open>null\<close>; on any other
  element it reads a property.
\<close>

definition load_try :: "world \<Rightarrow> world outcome" where
  "load_try w =
     (case readFile (disk w) of
        Inl e \<Rightarrow> Throws e
      | Inr data \<Rightarrow>
          if data = [] then Returns w
          else
            (case JSON_parse data of
               None \<Rightarrow> Throws SyntaxError
             | Some (JArray xs) \<Rightarrow>
                 if JNull \<in> set xs then Throws TypeError
                 else
                   (case as_Users xs of
                      None \<Rightarrow> IllTyped
                    | Some us \<Rightarrow>
                        Returns (w\<lparr>users := new_Map (map (\<lambda>user. (id' user, user)) us)\<rparr>))
             | Some _ \<Rightarrow> Throws TypeError))"

text \<open>The \<open>catch\<close> block: \<open>ENOENT\<close> is swallowed, anything else is thrown again.\<close>

definition load :: "world \<Rightarrow> world outcome" where
  "load w =
     (case load_try w of
        Throws e \<Rightarrow> if code e = Some ''ENOENT'' then Returns w else Throws e
      | r \<Rightarrow> r)"

definition init :: "world \<Rightarrow> world outcome" where
  "init w =
     (case mkdir (disk w) of
        Inl e \<Rightarrow> Throws e
      | Inr _ \<Rightarrow> load w)"

subsection \<open>Reads\<close>

definition getAll :: "world \<Rightarrow> User list" where
  "getAll w = map_values (users w)"

definition getById :: "world \<Rightarrow> jsstring \<Rightarrow> error + User" where
  "getById w i =
     (case map_get (users w) i of
        None \<Rightarrow> Inl UserNotFoundError
      | Some user \<Rightarrow> Inr user)"

subsection \<open>The write queue and the mutations\<close>

text \<open>
  \<open>enqueueWrite\<close>: \<open>writeQueue = writeQueue.then(action)\<close>, and the new promise is
  returned. Every action is \<open>() => this.persist()\<close>, so a cell need not store it.
\<close>

definition enqueueWrite :: "world \<Rightarrow> nat \<times> world" where
  "enqueueWrite w =
     (let h = length (promises w)
      in (h, w\<lparr>promises := promises w @ [Pending (writeQueue w)], writeQueue := h\<rparr>))"

text \<open>
  A mutation runs synchronously up to its \<open>await\<close>: it either throws (\<open>Inl\<close>) or returns
  the promise it awaits (\<open>Inr\<close>); its caller sees the outcome of that promise.
\<close>

definition create :: "User \<Rightarrow> world \<Rightarrow> (error + nat) \<times> world" where
  "create user w =
     (if \<exists>existing \<in> set (map_values (users w)). email existing = email user
      then (Inl UserExistsError, w)
      else (let w1 = w\<lparr>users := map_set (users w) (id' user) user\<rparr>;
                (h, w2) = enqueueWrite w1
            in (Inr h, w2)))"

definition update :: "User \<Rightarrow> world \<Rightarrow> (error + nat) \<times> world" where
  "update user w =
     (if \<not> map_has (users w) (id' user) then (Inl UserNotFoundError, w)
      else if \<exists>(i, existing) \<in> set (users w). email existing = email user \<and> i \<noteq> id' user
      then (Inl UserExistsError, w)
      else (let w1 = w\<lparr>users := map_set (users w) (id' user) user\<rparr>;
                (h, w2) = enqueueWrite w1
            in (Inr h, w2)))"

definition delete :: "jsstring \<Rightarrow> world \<Rightarrow> (error + nat) \<times> world" where
  "delete i w =
     (if \<not> map_has (users w) i then (Inl UserNotFoundError, w)
      else (let w1 = w\<lparr>users := map_delete (users w) i\<rparr>;
                (h, w2) = enqueueWrite w1
            in (Inr h, w2)))"

subsection \<open>\<open>persist\<close> and the steps of the runtime\<close>

text \<open>
  \<open>persist\<close> serialises the values of the map as they are when it is called, then awaits
  \<open>fs.writeFile\<close>. Its synchronous part yields the text to write.
\<close>

definition persist_data :: "world \<Rightarrow> jsstring" where
  "persist_data w = JSON_stringify (JArray (map user_json (map_values (users w))))"

text \<open>
  The reaction job of the promise \<open>h = p.then(action)\<close>. It can run once \<open>p\<close> is settled:
  on a fulfilled \<open>p\<close> it calls the action, which starts the write; on a rejected \<open>p\<close> it
  rejects \<open>h\<close> with the same reason and the action is never called.
\<close>

definition job :: "nat \<Rightarrow> world \<Rightarrow> world" where
  "job h w =
     (case cell w h of
        Some (Pending p) \<Rightarrow>
          (case cell w p of
             Some Fulfilled \<Rightarrow>
               w\<lparr>promises := (promises w)[h := Running (persist_data w)],
                 started := started w @ [h]\<rparr>
           | Some (Rejected e) \<Rightarrow> w\<lparr>promises := (promises w)[h := Rejected e]\<rparr>
           | _ \<Rightarrow> w)
      | _ \<Rightarrow> w)"

text \<open>
  The write in flight completes: the file holds the data and \<open>persist\<close> returns, or
  \<open>writeFile\<close> fails with an error code, \<open>persist\<close> throws it again, and the file is
  left in whatever state the failed write produced.
\<close>

definition write_done :: "nat \<Rightarrow> world \<Rightarrow> world" where
  "write_done h w =
     (case cell w h of
        Some (Running data) \<Rightarrow>
          w\<lparr>promises := (promises w)[h := Fulfilled], disk := FileContent data\<rparr>
      | _ \<Rightarrow> w)"

definition write_failed :: "nat \<Rightarrow> string \<Rightarrow> fs \<Rightarrow> world \<Rightarrow> world" where
  "write_failed h c d w =
     (case cell w h of
        Some (Running data) \<Rightarrow>
          w\<lparr>promises := (promises w)[h := Rejected (ErrnoException c)], disk := d\<rparr>
      | _ \<Rightarrow> w)"

text \<open>
  Everything that can happen to an initialised store: a call of the facade (its
  synchronous part), a reaction job, the completion of a write. A run is any sequence of
  these; a step that is not enabled changes nothing.
\<close>

datatype event =
    Create User
  | Update User
  | Delete jsstring
  | GetById jsstring
  | GetAll
  | Job nat
  | WriteDone nat
  | WriteFailed nat string fs

fun step :: "event \<Rightarrow> world \<Rightarrow> world" where
  "step (Create user) w = snd (create user w)"
| "step (Update user) w = snd (update user w)"
| "step (Delete i) w = snd (delete i w)"
| "step (GetById i) w = w"
| "step GetAll w = w"
| "step (Job h) w = job h w"
| "step (WriteDone h) w = write_done h w"
| "step (WriteFailed h c d) w = write_failed h c d w"

definition exec :: "event list \<Rightarrow> world \<Rightarrow> world" where
  "exec evs w = foldl (\<lambda>w' ev. step ev w') w evs"

text \<open>The events of the runtime, as opposed to calls of the facade.\<close>

fun queue_event :: "event \<Rightarrow> bool" where
  "queue_event (Job h) = True"
| "queue_event (WriteDone h) = True"
| "queue_event (WriteFailed h c d) = True"
| "queue_event _ = False"

text \<open>The calls that set or delete the record under a given id.\<close>

fun touches :: "jsstring \<Rightarrow> event \<Rightarrow> bool" where
  "touches i (Create user) = (id' user = i)"
| "touches i (Update user) = (id' user = i)"
| "touches i (Delete j) = (j = i)"
| "touches i _ = False"

subsection \<open>Invariants of a run\<close>

text \<open>
  What every reachable state satisfies. In the map, keys are distinct and the emails of the
  records are distinct (the latter only when the store started empty).
\<close>

definition unique_store :: "world \<Rightarrow> bool" where
  "unique_store w \<longleftrightarrow>
     distinct (map fst (users w)) \<and> distinct (map (\<lambda>p. email (snd p)) (users w))"

text \<open>Every key of the map is the id of its record, and no key occurs twice.\<close>

definition store_ok :: "world \<Rightarrow> bool" where
  "store_ok w \<longleftrightarrow> distinct (map fst (users w)) \<and> (\<forall>e \<in> set (users w). fst e = id' (snd e))"

text \<open>
  The shape of the promise chain: a pending cell waits for the cell just before it; a
  cell whose action has started (running or fulfilled) has only fulfilled cells before
  it; behind a pending cell every cell is pending.
\<close>

definition parents_ok :: "promise list \<Rightarrow> bool" where
  "parents_ok ps \<longleftrightarrow> (\<forall>k < length ps. \<forall>p. ps ! k = Pending p \<longrightarrow> k = Suc p)"

definition started_ok :: "promise list \<Rightarrow> bool" where
  "started_ok ps \<longleftrightarrow>
     (\<forall>k < length ps. \<forall>j < k.
        (ps ! k = Fulfilled \<or> (\<exists>d. ps ! k = Running d)) \<longrightarrow> ps ! j = Fulfilled)"

definition pending_ok :: "promise list \<Rightarrow> bool" where
  "pending_ok ps \<longleftrightarrow>
     (\<forall>k < length ps. \<forall>j < k. (\<exists>p. ps ! j = Pending p) \<longrightarrow> (\<exists>q. ps ! k = Pending q))"

definition chain_ok :: "world \<Rightarrow> bool" where
  "chain_ok w \<longleftrightarrow>
     promises w \<noteq> [] \<and> promises w ! 0 = Fulfilled \<and>
     writeQueue w = length (promises w) - 1 \<and>
     parents_ok (promises w) \<and> started_ok (promises w) \<and> pending_ok (promises w)"

text \<open>
  The promise \<open>h\<close> is the last of the chain and its action, once called, writes the text
  \<open>P\<close>: the state of the queue between an accepted mutation and the next one.
\<close>

definition last_persist :: "nat \<Rightarrow> jsstring \<Rightarrow> world \<Rightarrow> bool" where
  "last_persist h P w \<longleftrightarrow>
     chain_ok w \<and> Suc h = length (promises w) \<and> persist_data w = P \<and>
     (\<forall>data. cell w h = Some (Running data) \<longrightarrow> data = P) \<and>
     (cell w h = Some Fulfilled \<longrightarrow> disk w = FileContent P)"

text \<open>
  The log of the calls of persist actions is strictly increasing, and no promise in it
  is pending.
\<close>

definition log_ok :: "world \<Rightarrow> bool" where
  "log_ok w \<longleftrightarrow>
     sorted_wrt (<) (started w) \<and>
     (\<forall>k \<in> set (started w). k < length (promises w) \<and> (\<forall>p. promises w ! k \<noteq> Pending p))"

subsection \<open>Notions for the parser and for the texts \<open>JSON.stringify\<close> writes\<close>

text \<open>
  A parse with fuel \<open>n\<close> that succeeds consumes some of the text, and succeeds alike with
  any fuel of at least twice what it consumed.
\<close>

definition enough :: "(nat \<Rightarrow> jsstring \<Rightarrow> ('a \<times> jsstring) option) \<Rightarrow> nat \<Rightarrow> bool" where
  "enough parse n \<longleftrightarrow>
     (\<forall>cs v r. parse n cs = Some (v, r) \<longrightarrow>
        length r < length cs \<and>
        (\<forall>m. 2 * (length cs - length r) \<le> m \<longrightarrow> parse m cs = Some (v, r)))"

text \<open>
  A well-formed UTF-16 string: every surrogate is part of a pair. Such a string is what
  decoding its UTF-8 encoding gives back, so \<open>readFile\<close> returns what \<open>writeFile\<close> was
  given. The units below 128 are plain.
\<close>

fun well_formed :: "jsstring \<Rightarrow> bool" where
  "well_formed [] = True"
| "well_formed (c # cs) =
     (if is_high_surrogate c then
        (case cs of [] \<Rightarrow> False | d # ds \<Rightarrow> is_low_surrogate d \<and> well_formed ds)
      else \<not> is_low_surrogate c \<and> well_formed cs)"

definition plain :: "nat \<Rightarrow> bool" where
  "plain c \<longleftrightarrow> c < 128"

text \<open>The units \<open>QuoteJSONString\<close> writes as a backslash and one character.\<close>

definition two_char :: "nat \<Rightarrow> bool" where
  "two_char c \<longleftrightarrow> c = 8 \<or> c = 9 \<or> c = 10 \<or> c = 12 \<or> c = 13 \<or> c = 34 \<or> c = 92"

text \<open>
  The text of one member of an object; an object with members that all hold strings; such
  an object with fewer than \<open>b\<close> members.
\<close>

definition member_text :: "jsstring \<Rightarrow> jsstring \<times> json \<Rightarrow> jsstring" where
  "member_text ind m = (case m of (k, v) \<Rightarrow> QuoteJSONString k @ [58, 32] @ stringify ind v)"

definition string_members :: "(jsstring \<times> json) list \<Rightarrow> bool" where
  "string_members ms \<longleftrightarrow> ms \<noteq> [] \<and> (\<forall>m \<in> set ms. \<exists>s. snd m = JString s)"

definition flat_object :: "nat \<Rightarrow> json \<Rightarrow> bool" where
  "flat_object b x \<longleftrightarrow> (\<exists>ms. x = JObject ms \<and> string_members ms \<and> length ms < b)"

text \<open>
  The format of the file, record by record: \<open>property j k\<close> is the value the object \<open>j\<close>
  holds under the key \<open>k\<close>, and \<open>record_object j u\<close> says that \<open>j\<close> is an object with the
  keys \<open>id\<close>, \<open>name\<close>, \<open>email\<close>, \<open>created_at\<close> and \<open>updated_at\<close>, each once and no
  other, that hold the strings of the fields of \<open>u\<close>.
\<close>

definition property :: "json \<Rightarrow> jsstring \<Rightarrow> json option" where
  "property j k = (case j of JObject ms \<Rightarrow> map_of ms k | _ \<Rightarrow> None)"

definition record_object :: "json \<Rightarrow> User \<Rightarrow> bool" where
  "record_object j u \<longleftrightarrow>
     distinct (object_keys j) \<and> set (object_keys j) = set user_keys \<and>
     property j (str ''id'') = Some (JString (id' u)) \<and>
     property j (str ''name'') = Some (JString (name u)) \<and>
     property j (str ''email'') = Some (JString (email u)) \<and>
     property j (str ''created_at'') = Some (JString (created_at u)) \<and>
     property j (str ''updated_at'') = Some (JString (updated_at u))"

subsection \<open>Sample records\<close>

definition ann :: User where
  "ann = \<lparr>id' = str ''u1'', name = str ''Ann'', email = str ''ann@x.com'',
          created_at = str ''2024-01-01T00:00:00.000Z'',
          updated_at = str ''2024-01-01T00:00:00.000Z'', own_keys = declared_keys\<rparr>"

definition bob :: User where
  "bob = \<lparr>id' = str ''u2'', name = str ''Bob'', email = str ''bob@x.com'',
          created_at = str ''2024-01-02T00:00:00.000Z'',
          updated_at = str ''2024-01-02T00:00:00.000Z'', own_keys = declared_keys\<rparr>"

text \<open>A second record with Ann's email, and one with Ann's id and another email.\<close>

definition ann_twin :: User where
  "ann_twin = \<lparr>id' = str ''u3'', name = str ''Ann B'', email = str ''ann@x.com'',
               created_at = str ''later'', updated_at = str ''later'',
               own_keys = declared_keys\<rparr>"

definition ann_moved :: User where
  "ann_moved = \<lparr>id' = str ''u1'', name = str ''Ann'', email = str ''ann@y.org'',
                created_at = str ''later'', updated_at = str ''later'',
                own_keys = declared_keys\<rparr>"

text \<open>A record whose properties were created in another order than the type lists them.\<close>

definition cat :: User where
  "cat = \<lparr>id' = str ''u4'', name = str ''Cat'', email = str ''cat@x.com'',
          created_at = str ''2024-03-01T00:00:00.000Z'',
          updated_at = str ''2024-03-02T00:00:00.000Z'',
          own_keys = key_order_of
            [str ''name'', str ''email'', str ''id'', str ''updated_at'', str ''created_at'']\<rparr>"

definition store0 :: world where
  "store0 = new_JsonStore ''./data/users.json'' FileAbsent"

definition store_ann :: world where
  "store_ann = exec [Create ann] store0"

definition store_ann_bob :: world where
  "store_ann_bob = exec [Create ann, Create bob] store0"

text \<open>The store after Ann's record was written; a renamed Ann; and what follows.\<close>

definition store_ann_saved :: world where
  "store_ann_saved = exec [Create ann, Job 1, WriteDone 1] store0"

definition ann_renamed :: User where
  "ann_renamed = ann\<lparr>name := str ''Ann C'', updated_at := str ''2024-02-01T00:00:00.000Z''\<rparr>"

definition store_renamed :: world where
  "store_renamed = exec [Update ann_renamed] store_ann_saved"

definition store_emptied :: world where
  "store_emptied = exec [Delete (id' ann)] store_ann_saved"

lemmas sample_defs =
  ann_def bob_def ann_twin_def ann_moved_def store0_def store_ann_def store_ann_bob_def
  new_JsonStore_def str_def

lemmas op_defs =
  exec_def create_def update_def delete_def enqueueWrite_def map_set_def map_values_def
  map_has_def map_get_def map_delete_def getAll_def getById_def

lemmas run_defs = job_def write_done_def write_failed_def cell_def

section \<open>Runs and the map\<close>

lemma exec_Nil: "exec [] w = w" by (simp add: exec_def)

lemma exec_Cons: "exec (ev # evs) w = exec evs (step ev w)" by (simp add: exec_def)

lemma exec_append: "exec (xs @ ys) w = exec ys (exec xs w)" by (simp add: exec_def)

lemma set_update_subset: "set (AList.update k v m) \<subseteq> insert (k, v) (set m)"
  by (induction m) auto

lemma length_update_present:
  "map_of m k \<noteq> None \<Longrightarrow> length (AList.update k v m) = length m"
  by (induction m) auto

lemma keys_update_present:
  "map_of m k \<noteq> None \<Longrightarrow> map fst (AList.update k v m) = map fst m"
  by (induction m) auto

lemma update_fresh: "k \<notin> fst ` set m \<Longrightarrow> AList.update k v m = m @ [(k, v)]"
  by (induction m) auto

lemma get_after_set: "map_get (map_set m k v) k = Some v"
  by (simp add: map_get_def map_set_def update_conv')

lemma get_after_delete: "map_get (map_delete m k) k = None"
  by (simp add: map_get_def map_delete_def delete_conv')

lemma in_values_after_set: "v \<in> set (map_values (map_set m k v))"
proof -
  have "(k, v) \<in> set (AList.update k v m)" by (induction m) auto
  then show ?thesis by (force simp: map_values_def map_set_def)
qed

text \<open>
  What an accepted mutation leaves behind: the new map, one more pending promise at the
  end of the chain, the same disk.
\<close>

lemma create_accepted:
  assumes "create x w = (Inr h, w1)"
  shows "h = length (promises w)"
    and "users w1 = map_set (users w) (id' x) x"
    and "promises w1 = promises w @ [Pending (writeQueue w)]"
    and "writeQueue w1 = h" and "disk w1 = disk w" and "started w1 = started w"
  using assms by (auto simp: create_def enqueueWrite_def Let_def split: if_splits)

lemma update_accepted:
  assumes "update x w = (Inr h, w1)"
  shows "h = length (promises w)"
    and "users w1 = map_set (users w) (id' x) x"
    and "promises w1 = promises w @ [Pending (writeQueue w)]"
    and "writeQueue w1 = h" and "disk w1 = disk w" and "started w1 = started w"
  using assms by (auto simp: update_def enqueueWrite_def Let_def split: if_splits)

lemma delete_accepted:
  assumes "delete i w = (Inr h, w1)"
  shows "h = length (promises w)"
    and "users w1 = map_delete (users w) i"
    and "promises w1 = promises w @ [Pending (writeQueue w)]"
    and "writeQueue w1 = h" and "disk w1 = disk w" and "started w1 = started w"
  using assms by (auto simp: delete_def enqueueWrite_def Let_def split: if_splits)

text \<open>
  The events of the runtime never touch the map, and a call touches the record of its own
  id only.
\<close>

lemma users_queue_step: "queue_event ev \<Longrightarrow> users (step ev w) = users w"
  by (cases ev) (auto simp: job_def write_done_def write_failed_def split: option.splits promise.splits)

lemma users_queue_exec: "\<forall>ev \<in> set evs. queue_event ev \<Longrightarrow> users (exec evs w) = users w"
  by (induction evs arbitrary: w) (simp_all add: exec_Nil exec_Cons users_queue_step)

lemma get_untouched_step:
  "\<not> touches k ev \<Longrightarrow> map_get (users (step ev w)) k = map_get (users w) k"
proof (cases ev)
  case (Create u)
  assume "\<not> touches k ev"
  with Create show ?thesis
    by (simp add: create_def enqueueWrite_def Let_def map_get_def map_set_def update_conv')
next
  case (Update u)
  assume "\<not> touches k ev"
  with Update show ?thesis
    by (simp add: update_def enqueueWrite_def Let_def map_get_def map_set_def update_conv')
next
  case (Delete i)
  assume "\<not> touches k ev"
  with Delete show ?thesis
    by (simp add: delete_def enqueueWrite_def Let_def map_get_def map_delete_def)
next
  case (Job h)
  then show ?thesis using users_queue_step [of ev w] by simp
next
  case (WriteDone h)
  then show ?thesis using users_queue_step [of ev w] by simp
next
  case (WriteFailed h c d)
  then show ?thesis using users_queue_step [of ev w] by simp
qed simp_all

lemma get_untouched_exec:
  "\<forall>ev \<in> set evs. \<not> touches k ev \<Longrightarrow> map_get (users (exec evs w)) k = map_get (users w) k"
  by (induction evs arbitrary: w) (simp_all add: exec_Nil exec_Cons get_untouched_step)

lemma get_in_values: "map_get m k = Some v \<Longrightarrow> v \<in> set (map_values m)"
  by (force simp: map_get_def map_values_def dest: map_of_SomeD)

lemma queue_event_untouched: "queue_event ev \<Longrightarrow> \<not> touches k ev"
  by (cases ev) simp_all

text \<open>The cases of a reaction job.\<close>

lemma cell_upd_eq:
  "h < length (promises w) \<Longrightarrow> promises w' = (promises w)[k := c] \<Longrightarrow>
   cell w' h = (if h = k then Some c else cell w h)"
  by (auto simp: cell_def)

lemma cell_append: "cell (w\<lparr>promises := promises w @ [c]\<rparr>) h =
    (if h < length (promises w) then cell w h else if h = length (promises w) then Some c else None)"
  by (auto simp: cell_def nth_append)

lemma job_idle: "(\<And>p. cell w k \<noteq> Some (Pending p)) \<Longrightarrow> job k w = w"
  by (cases "cell w k") (auto simp: job_def split: promise.splits)

lemma job_wait:
  "cell w k = Some (Pending p) \<Longrightarrow> cell w p \<noteq> Some Fulfilled \<Longrightarrow>
   (\<And>e. cell w p \<noteq> Some (Rejected e)) \<Longrightarrow> job k w = w"
  by (cases "cell w p") (auto simp: job_def split: promise.splits)

lemma job_start:
  "cell w k = Some (Pending p) \<Longrightarrow> cell w p = Some Fulfilled \<Longrightarrow>
   job k w = w\<lparr>promises := (promises w)[k := Running (persist_data w)], started := started w @ [k]\<rparr>"
  by (simp add: job_def)

lemma job_skip:
  "cell w k = Some (Pending p) \<Longrightarrow> cell w p = Some (Rejected e) \<Longrightarrow>
   job k w = w\<lparr>promises := (promises w)[k := Rejected e]\<rparr>"
  by (simp add: job_def)

lemma job_cases:
  obtains (idle) "job k w = w"
  | (start) p where "cell w k = Some (Pending p)" "cell w p = Some Fulfilled"
      "job k w = w\<lparr>promises := (promises w)[k := Running (persist_data w)], started := started w @ [k]\<rparr>"
  | (skip) p e where "cell w k = Some (Pending p)" "cell w p = Some (Rejected e)"
      "job k w = w\<lparr>promises := (promises w)[k := Rejected e]\<rparr>"
proof (cases "\<exists>p. cell w k = Some (Pending p)")
  case False
  then show ?thesis using idle job_idle [of w k] by blast
next
  case True
  then obtain p where p: "cell w k = Some (Pending p)" by blast
  show ?thesis
  proof (cases "cell w p = Some Fulfilled")
    case True
    then show ?thesis using start p job_start by blast
  next
    case nf: False
    show ?thesis
    proof (cases "\<exists>e. cell w p = Some (Rejected e)")
      case True
      then show ?thesis using skip p job_skip by blast
    next
      case False
      then show ?thesis using idle p nf job_wait [of w k p] by blast
    qed
  qed
qed

text \<open>Facts about the sample store.\<close>

lemma init_empty_file:
  "d = FileAbsent \<or> d = FileContent [] \<Longrightarrow> init (new_JsonStore path d) = Returns (new_JsonStore path d)"
  by (auto simp: init_def load_def load_try_def mkdir_def readFile_def new_JsonStore_def)

lemma init_store0: "init (new_JsonStore ''./data/users.json'' FileAbsent) = Returns store0"
  by (simp add: init_empty_file store0_def)

lemma create_ann: "create ann store0 = (Inr 1, store_ann)"
  by (simp add: sample_defs op_defs)

lemma run_ann: "cell (exec [Job 1] store_ann) 1 = Some (Running (persist_data store_ann))"
  by (simp add: sample_defs op_defs run_defs)

lemma done_ann: "cell (exec [Job 1, WriteDone 1] store_ann) 1 = Some Fulfilled"
  by (simp add: sample_defs op_defs run_defs)

section \<open>Unique emails\<close>

lemma distinct_emails_update:
  assumes "distinct (map fst m)" and "distinct (map (\<lambda>p. email (snd p)) m)"
    and "\<forall>(k', v') \<in> set m. k' \<noteq> k \<longrightarrow> email v' \<noteq> email v"
  shows "distinct (map (\<lambda>p. email (snd p)) (AList.update k v m))"
  using assms
proof (induction m)
  case Nil
  then show ?case by simp
next
  case (Cons p m)
  obtain k0 v0 where p: "p = (k0, v0)" by (cases p)
  show ?case
  proof (cases "k0 = k")
    case True
    have "email v \<notin> (\<lambda>p. email (snd p)) ` set m"
    proof
      assume "email v \<in> (\<lambda>p. email (snd p)) ` set m"
      then obtain a b where ab: "(a, b) \<in> set m" and e: "email b = email v" by auto
      from ab Cons.prems(1) p True have "a \<noteq> k" by (auto simp: image_iff)
      with ab e Cons.prems(3) show False by auto
    qed
    with Cons.prems p True show ?thesis by simp
  next
    case False
    have ih: "distinct (map (\<lambda>p. email (snd p)) (AList.update k v m))"
    proof (rule Cons.IH)
      show "distinct (map fst m)" using Cons.prems(1) by simp
      show "distinct (map (\<lambda>p. email (snd p)) m)" using Cons.prems(2) by simp
      show "\<forall>(k', v') \<in> set m. k' \<noteq> k \<longrightarrow> email v' \<noteq> email v"
        using Cons.prems(3) by simp
    qed
    have "email v0 \<notin> (\<lambda>p. email (snd p)) ` set (AList.update k v m)"
    proof
      assume "email v0 \<in> (\<lambda>p. email (snd p)) ` set (AList.update k v m)"
      then obtain q where q: "q \<in> set (AList.update k v m)" and e: "email (snd q) = email v0"
        by auto
      from q set_update_subset have "q = (k, v) \<or> q \<in> set m" by fastforce
      then show False
      proof
        assume "q = (k, v)"
        with e Cons.prems(3) p False show False by auto
      next
        assume "q \<in> set m"
        with e Cons.prems(2) p show False by (auto simp: image_iff)
      qed
    qed
    with ih p False show ?thesis by simp
  qed
qed

lemma distinct_emails_delete:
  "distinct (map (\<lambda>p. email (snd p)) m) \<Longrightarrow> distinct (map (\<lambda>p. email (snd p)) (AList.delete k m))"
  by (simp add: AList.delete_eq distinct_map_filter)

lemma unique_store_step: "unique_store w \<Longrightarrow> unique_store (step ev w)"
proof (cases ev)
  case (Create u)
  assume "unique_store w"
  then show ?thesis using Create
    by (auto simp: unique_store_def create_def enqueueWrite_def map_set_def map_values_def
          Let_def distinct_update intro!: distinct_emails_update)
next
  case (Update u)
  assume "unique_store w"
  then show ?thesis using Update
    by (auto simp: unique_store_def update_def enqueueWrite_def map_set_def
          Let_def distinct_update intro!: distinct_emails_update)
next
  case (Delete i)
  assume "unique_store w"
  then show ?thesis using Delete
    by (auto simp: unique_store_def delete_def enqueueWrite_def map_delete_def
          Let_def distinct_delete distinct_emails_delete)
qed (auto simp: unique_store_def job_def write_done_def write_failed_def
       split: option.splits promise.splits)

lemma unique_store_exec: "unique_store w \<Longrightarrow> unique_store (exec evs w)"
  by (induction evs arbitrary: w) (simp_all add: exec_Nil exec_Cons unique_store_step)

text \<open>
  C2. A store initialised on an absent or empty file, after any sequence of calls of
  \<open>create\<close>, \<open>update\<close>, \<open>delete\<close>, \<open>getById\<close>, \<open>getAll\<close> and of events of the write
  queue (whatever the writes do), returns from \<open>getAll\<close> a list whose emails are pairwise
  different: no two positions of the list hold the same email.
\<close>

theorem unique_email:
  assumes "d = FileAbsent \<or> d = FileContent []"
    and "init (new_JsonStore path d) = Returns w0"
  shows "distinct (map email (getAll (exec evs w0)))"
proof -
  from assms have "w0 = new_JsonStore path d" by (simp add: init_empty_file)
  then have "unique_store w0" by (simp add: unique_store_def new_JsonStore_def)
  then have "unique_store (exec evs w0)" by (rule unique_store_exec)
  then show ?thesis by (simp add: unique_store_def getAll_def map_values_def comp_def)
qed

theorem unique_email_witness:
  "init (new_JsonStore ''./data/users.json'' FileAbsent) = Returns store0 \<and>
   distinct (map email (getAll (exec
     [Create ann, Create ann_twin, Create bob, GetAll, Update (bob\<lparr>email := email ann\<rparr>),
      Job 1, Delete (id' ann), WriteDone 1, Create ann_twin, GetById (id' bob)] store0)))"
proof -
  have i: "init (new_JsonStore ''./data/users.json'' FileAbsent) = Returns store0"
    by (rule init_store0)
  from unique_email [of FileAbsent "''./data/users.json''" store0] i show ?thesis by simp
qed

section \<open>Conflicts leave the store as it was\<close>

lemma create_conflict_iff:
  "fst (create user w) = Inl UserExistsError \<longleftrightarrow>
     (\<exists>existing \<in> set (getAll w). email existing = email user)"
  by (simp add: create_def getAll_def enqueueWrite_def Let_def)

lemma update_conflict_iff:
  "fst (update user w) = Inl UserExistsError \<longleftrightarrow>
     map_has (users w) (id' user) \<and>
     (\<exists>(i, existing) \<in> set (users w). email existing = email user \<and> i \<noteq> id' user)"
  by (simp add: update_def enqueueWrite_def Let_def)

text \<open>
  C3. When \<open>create\<close> or \<open>update\<close> throws \<open>UserExistsError\<close>, the whole state is the one
  before the call: the map (hence \<open>getAll\<close>), the promise heap and \<open>writeQueue\<close>, so no
  record was inserted or replaced and no persist action was enqueued. \<open>create\<close> throws it
  exactly when a stored record has the candidate's email, \<open>update\<close> exactly when the id is
  present and a record under another id has that email.
\<close>

theorem conflict_leaves_state:
  "(fst (create user w) = Inl UserExistsError \<longleftrightarrow>
      (\<exists>existing \<in> set (getAll w). email existing = email user)) \<and>
   (fst (update user w) = Inl UserExistsError \<longleftrightarrow>
      map_has (users w) (id' user) \<and>
      (\<exists>(i, existing) \<in> set (users w). email existing = email user \<and> i \<noteq> id' user)) \<and>
   (fst (create user w) = Inl UserExistsError \<longrightarrow> snd (create user w) = w) \<and>
   (fst (update user w) = Inl UserExistsError \<longrightarrow> snd (update user w) = w)"
  by (simp add: create_conflict_iff update_conflict_iff)
     (simp add: create_def update_def getAll_def enqueueWrite_def Let_def)

theorem conflict_leaves_state_witness:
  "fst (create ann_twin store_ann) = Inl UserExistsError \<and>
   snd (create ann_twin store_ann) = store_ann \<and>
   fst (update (bob\<lparr>email := email ann\<rparr>) store_ann_bob) = Inl UserExistsError \<and>
   snd (update (bob\<lparr>email := email ann\<rparr>) store_ann_bob) = store_ann_bob"
proof -
  have c: "\<exists>existing \<in> set (getAll store_ann). email existing = email ann_twin"
    by (simp add: sample_defs op_defs)
  have u: "map_has (users store_ann_bob) (id' (bob\<lparr>email := email ann\<rparr>)) \<and>
      (\<exists>(i, existing) \<in> set (users store_ann_bob).
          email existing = email (bob\<lparr>email := email ann\<rparr>) \<and>
          i \<noteq> id' (bob\<lparr>email := email ann\<rparr>))"
    by (simp add: sample_defs op_defs)
  show ?thesis
    using conflict_leaves_state [of ann_twin store_ann]
      conflict_leaves_state [of "bob\<lparr>email := email ann\<rparr>" store_ann_bob] c u
    by blast
qed

section \<open>Reads after a mutation\<close>

text \<open>
  C5. When \<open>create x\<close> is accepted, the promise it awaits is still pending (the persist
  has not even started) and \<open>getById\<close> already returns \<open>x\<close> itself, with its id and
  timestamps, and \<open>getAll\<close> holds it. Whatever happens next (the persist starts,
  completes or fails, other callers mutate other records), and so also at the moment
  \<open>create\<close> returns, \<open>getById\<close> returns \<open>x\<close>, until a call sets or deletes the record of
  that id. Both reads are functions of the map alone: whatever the promise heap, the
  queue and the disk are, they return the same.
\<close>

theorem read_after_create:
  assumes "create x w = (Inr h, w1)" and "\<forall>ev \<in> set evs. \<not> touches (id' x) ev"
  shows "cell w1 h = Some (Pending (writeQueue w)) \<and>
         getById w1 (id' x) = Inr x \<and> x \<in> set (getAll w1) \<and>
         getById (exec evs w1) (id' x) = Inr x \<and> x \<in> set (getAll (exec evs w1)) \<and>
         getById (w1\<lparr>writeQueue := q, promises := ps, disk := d, started := l\<rparr>) (id' x) = Inr x \<and>
         getAll (w1\<lparr>writeQueue := q, promises := ps, disk := d, started := l\<rparr>) = getAll w1"
proof -
  have g1: "map_get (users w1) (id' x) = Some x"
    using create_accepted(2) [OF assms(1)] by (simp add: get_after_set)
  have g: "map_get (users (exec evs w1)) (id' x) = Some x"
    using get_untouched_exec [OF assms(2), of w1] g1 by simp
  have c: "cell w1 h = Some (Pending (writeQueue w))"
    using create_accepted(1,3) [OF assms(1)] by (simp add: cell_def)
  from g1 g c get_in_values [OF g1] get_in_values [OF g] show ?thesis
    by (simp add: getById_def getAll_def)
qed

theorem read_after_create_witness:
  "create ann store0 = (Inr 1, store_ann) \<and>
   cell store_ann 1 = Some (Pending 0) \<and>
   getById store_ann (id' ann) = Inr ann \<and>
   getById (exec [Job 1, Create bob, WriteFailed 1 ''ENOSPC'' FileAbsent, Delete (id' bob)] store_ann)
     (id' ann) = Inr ann \<and>
   ann \<in> set (getAll
     (exec [Job 1, Create bob, WriteFailed 1 ''ENOSPC'' FileAbsent, Delete (id' bob)] store_ann)) \<and>
   getById (store_ann\<lparr>writeQueue := 7, promises := [], disk := FileUnreadable ''EIO'', started := []\<rparr>)
     (id' ann) = Inr ann"
proof -
  have q: "\<forall>ev \<in> set [Job 1, Create bob, WriteFailed 1 ''ENOSPC'' FileAbsent, Delete (id' bob)].
      \<not> touches (id' ann) ev"
    by (simp add: sample_defs)
  have w: "writeQueue store0 = 0" by (simp add: sample_defs)
  from read_after_create [OF create_ann q, where q = 7 and ps = "[]" and d = "FileUnreadable ''EIO''"
      and l = "[]"] w create_ann
  show ?thesis by simp
qed

text \<open>
  C4. When the write of the persist action of the promise \<open>h\<close> fails with the error code
  \<open>c\<close>, the promise \<open>h\<close>, which the mutation awaits, is rejected with that error, and the
  failure leaves the map as it is: nothing is rolled back. As long as no other call has
  set or deleted the record of that id, after a \<open>create x\<close> that fails this way \<open>getById\<close>
  returns \<open>x\<close> and \<open>getAll\<close> holds it, after such an \<open>update x\<close> \<open>getById\<close> returns the new
  \<open>x\<close>, after such a \<open>delete i\<close> the record stays removed.
\<close>

theorem persist_failure_keeps_mutation:
  assumes "\<forall>ev \<in> set evs. \<not> touches k ev"
    and "cell (exec evs w1) h = Some (Running data)"
  shows "cell (exec (evs @ [WriteFailed h c d]) w1) h = Some (Rejected (ErrnoException c)) \<and>
         users (exec (evs @ [WriteFailed h c d]) w1) = users (exec evs w1) \<and>
         (create x w = (Inr h, w1) \<and> k = id' x \<longrightarrow>
            getById (exec (evs @ [WriteFailed h c d]) w1) (id' x) = Inr x \<and>
            x \<in> set (getAll (exec (evs @ [WriteFailed h c d]) w1))) \<and>
         (update x w = (Inr h, w1) \<and> k = id' x \<longrightarrow>
            getById (exec (evs @ [WriteFailed h c d]) w1) (id' x) = Inr x) \<and>
         (delete i w = (Inr h, w1) \<and> k = i \<longrightarrow>
            getById (exec (evs @ [WriteFailed h c d]) w1) i = Inl UserNotFoundError)"
proof -
  let ?w2 = "exec (evs @ [WriteFailed h c d]) w1"
  have u: "users ?w2 = users (exec evs w1)"
    using users_queue_step [of "WriteFailed h c d" "exec evs w1"]
    by (simp add: exec_append exec_Cons exec_Nil)
  have g: "map_get (users ?w2) k = map_get (users w1) k"
    using u get_untouched_exec [OF assms(1), of w1] by simp
  have r: "cell ?w2 h = Some (Rejected (ErrnoException c))"
    using assms(2) by (auto simp: exec_append exec_Cons exec_Nil write_failed_def cell_def split: if_splits)
  have "getById ?w2 (id' x) = Inr x \<and> x \<in> set (getAll ?w2)"
    if "create x w = (Inr h, w1)" "k = id' x"
  proof -
    have "map_get (users ?w2) (id' x) = Some x"
      using g that by (simp add: create_accepted(2) get_after_set)
    then show ?thesis using get_in_values [of "users ?w2" "id' x" x] by (simp add: getById_def getAll_def)
  qed
  moreover have "getById ?w2 (id' x) = Inr x" if "update x w = (Inr h, w1)" "k = id' x"
    using g that by (simp add: getById_def update_accepted(2) get_after_set)
  moreover have "getById ?w2 i = Inl UserNotFoundError" if "delete i w = (Inr h, w1)" "k = i"
    using g that by (simp add: getById_def delete_accepted(2) get_after_delete)
  ultimately show ?thesis using u r by blast
qed

theorem persist_failure_keeps_mutation_witness:
  "cell (exec [Job 1] store_ann) 1 = Some (Running (persist_data store_ann)) \<and>
   create ann store0 = (Inr 1, store_ann) \<and>
   cell (exec ([Job 1] @ [WriteFailed 1 ''ENOSPC'' FileAbsent]) store_ann) 1
     = Some (Rejected (ErrnoException ''ENOSPC'')) \<and>
   users (exec ([Job 1] @ [WriteFailed 1 ''ENOSPC'' FileAbsent]) store_ann) = users (exec [Job 1] store_ann) \<and>
   getById (exec ([Job 1] @ [WriteFailed 1 ''ENOSPC'' FileAbsent]) store_ann) (id' ann) = Inr ann \<and>
   ann \<in> set (getAll (exec ([Job 1] @ [WriteFailed 1 ''ENOSPC'' FileAbsent]) store_ann)) \<and>
   update ann_renamed store_ann_saved = (Inr 2, store_renamed) \<and>
   cell (exec [Job 2] store_renamed) 2 = Some (Running (persist_data store_renamed)) \<and>
   getById (exec ([Job 2] @ [WriteFailed 2 ''EIO'' FileAbsent]) store_renamed) (id' ann_renamed)
     = Inr ann_renamed \<and>
   delete (id' ann) store_ann_saved = (Inr 2, store_emptied) \<and>
   cell (exec [Job 2] store_emptied) 2 = Some (Running (persist_data store_emptied)) \<and>
   getById (exec ([Job 2] @ [WriteFailed 2 ''EIO'' FileAbsent]) store_emptied) (id' ann)
     = Inl UserNotFoundError"
proof -
  have q: "\<forall>ev \<in> set [Job 1]. \<not> touches (id' ann) ev" "\<forall>ev \<in> set [Job 2]. \<not> touches (id' ann) ev"
    by simp_all
  have i: "id' ann_renamed = id' ann" by (simp add: ann_renamed_def)
  have u: "update ann_renamed store_ann_saved = (Inr 2, store_renamed)"
    by (simp add: sample_defs op_defs run_defs store_ann_saved_def ann_renamed_def store_renamed_def)
  have ru: "cell (exec [Job 2] store_renamed) 2 = Some (Running (persist_data store_renamed))"
    by (simp add: sample_defs op_defs run_defs store_ann_saved_def ann_renamed_def store_renamed_def)
  have d: "delete (id' ann) store_ann_saved = (Inr 2, store_emptied)"
    by (simp add: sample_defs op_defs run_defs store_ann_saved_def store_emptied_def)
  have rd: "cell (exec [Job 2] store_emptied) 2 = Some (Running (persist_data store_emptied))"
    by (simp add: sample_defs op_defs run_defs store_ann_saved_def store_emptied_def)
  from persist_failure_keeps_mutation [OF q(1) run_ann, where c = "''ENOSPC''" and d = FileAbsent
      and x = ann and w = store0]
    persist_failure_keeps_mutation [OF q(2) ru, where c = "''EIO''" and d = FileAbsent
      and x = ann_renamed and w = store_ann_saved]
    persist_failure_keeps_mutation [OF q(2) rd, where c = "''EIO''" and d = FileAbsent
      and i = "id' ann" and w = store_ann_saved]
    run_ann create_ann u ru d rd i
  show ?thesis by (simp add: users_queue_exec)
qed

text \<open>
  C10. \<open>create\<close> looks at emails only. For a record whose id is already a key of the map
  and whose email no stored record has, \<open>create\<close> is accepted: it puts the record under
  that key in place of the one that was there, the number of records and the keys stay as
  they were, and when the chain is fulfilled its promise is fulfilled once its write is
  done.
\<close>

theorem create_same_id_replaces:
  assumes "map_has (users w) (id' user)"
    and "\<forall>existing \<in> set (getAll w). email existing \<noteq> email user"
  shows "fst (create user w) = Inr (length (promises w)) \<and>
         getById (snd (create user w)) (id' user) = Inr user \<and>
         length (getAll (snd (create user w))) = length (getAll w) \<and>
         map fst (users (snd (create user w))) = map fst (users w) \<and>
         (cell w (writeQueue w) = Some Fulfilled \<longrightarrow>
            cell (exec [Job (length (promises w)), WriteDone (length (promises w))]
                    (snd (create user w))) (length (promises w)) = Some Fulfilled)"
proof -
  obtain h w1 where c: "create user w = (Inr h, w1)"
    using assms(2) by (auto simp: create_def getAll_def enqueueWrite_def Let_def)
  note a = create_accepted [OF c]
  have "getById w1 (id' user) = Inr user" using a(2) by (simp add: getById_def get_after_set)
  moreover have "length (getAll w1) = length (getAll w)"
    using a(2) assms(1) by (simp add: getAll_def map_values_def map_set_def map_has_def length_update_present)
  moreover have "map fst (users w1) = map fst (users w)"
    using a(2) assms(1) by (simp add: map_set_def map_has_def keys_update_present)
  moreover have "cell w (writeQueue w) = Some Fulfilled \<Longrightarrow>
      cell (exec [Job h, WriteDone h] w1) h = Some Fulfilled"
    using a(1,3)
    by (auto simp: exec_Cons exec_Nil job_def write_done_def cell_def nth_append split: if_splits)
  ultimately show ?thesis using c a(1) by auto
qed

theorem create_same_id_replaces_witness:
  "map_has (users store_ann_saved) (id' ann_moved) \<and>
   map email (getAll store_ann_saved) = [email ann] \<and>
   email ann \<noteq> email ann_moved \<and>
   cell store_ann_saved (writeQueue store_ann_saved) = Some Fulfilled \<and>
   fst (create ann_moved store_ann_saved) = Inr 2 \<and>
   getById store_ann_saved (id' ann_moved) = Inr ann \<and>
   getById (snd (create ann_moved store_ann_saved)) (id' ann_moved) = Inr ann_moved \<and>
   length (getAll store_ann_saved) = 1 \<and>
   length (getAll (snd (create ann_moved store_ann_saved))) = 1 \<and>
   cell (exec [Job 2, WriteDone 2] (snd (create ann_moved store_ann_saved))) 2 = Some Fulfilled"
proof -
  have h: "map_has (users store_ann_saved) (id' ann_moved)"
    by (simp add: sample_defs op_defs run_defs store_ann_saved_def)
  have e: "\<forall>existing \<in> set (getAll store_ann_saved). email existing \<noteq> email ann_moved"
    by (simp add: sample_defs op_defs run_defs store_ann_saved_def)
  have m: "map email (getAll store_ann_saved) = [email ann]" "email ann \<noteq> email ann_moved"
    by (simp_all add: sample_defs op_defs run_defs store_ann_saved_def)
  have l: "length (promises store_ann_saved) = 2" "length (getAll store_ann_saved) = 1"
    "getById store_ann_saved (id' ann_moved) = Inr ann"
    "cell store_ann_saved (writeQueue store_ann_saved) = Some Fulfilled"
    by (simp_all add: sample_defs op_defs run_defs store_ann_saved_def)
  from create_same_id_replaces [OF h e] h m l show ?thesis by simp
qed

section \<open>The promise chain\<close>

lemma chain_ok_new: "chain_ok (new_JsonStore path d)"
  by (simp add: chain_ok_def new_JsonStore_def parents_ok_def started_ok_def pending_ok_def)

lemma chain_ok_users [simp]: "chain_ok (w\<lparr>users := u\<rparr>) = chain_ok w"
  by (simp add: chain_ok_def)

lemma chain_ok_enqueue: "chain_ok w \<Longrightarrow> chain_ok (snd (enqueueWrite w))"
  unfolding chain_ok_def enqueueWrite_def Let_def parents_ok_def started_ok_def pending_ok_def
  by (simp add: nth_append)

lemma before_pending_fulfilled:
  assumes "parents_ok ps" "started_ok ps" "h < length ps" "ps ! h = Pending p" "ps ! p = Fulfilled"
    and "j < h"
  shows "ps ! j = Fulfilled"
proof -
  from assms have h: "h = Suc p" by (simp add: parents_ok_def)
  show ?thesis
  proof (cases "j = p")
    case True
    with assms show ?thesis by simp
  next
    case False
    with h \<open>j < h\<close> have "j < p" by simp
    moreover from h assms have "p < length ps" by simp
    ultimately show ?thesis using assms(2,5) by (simp add: started_ok_def)
  qed
qed

lemma parents_ok_settle:
  assumes "parents_ok ps" "\<forall>p. c \<noteq> Pending p"
  shows "parents_ok (ps[h := c])"
proof (cases "h < length ps")
  case True
  with assms show ?thesis by (auto simp: parents_ok_def nth_list_update)
next
  case False
  with assms show ?thesis by (simp add: not_less list_update_beyond)
qed

lemma started_ok_start:
  assumes "started_ok ps" "h < length ps" "\<forall>j < h. ps ! j = Fulfilled"
    and "\<forall>k < length ps. h < k \<longrightarrow> ps ! k \<noteq> Fulfilled \<and> (\<forall>d. ps ! k \<noteq> Running d)"
  shows "started_ok (ps[h := c])"
  unfolding started_ok_def
proof (intro allI impI)
  fix k j
  assume k: "k < length (ps[h := c])" and j: "j < k"
    and st: "ps[h := c] ! k = Fulfilled \<or> (\<exists>d. ps[h := c] ! k = Running d)"
  show "ps[h := c] ! j = Fulfilled"
  proof (cases "k \<le> h")
    case True
    with j have "j < h" by simp
    with assms(3) show ?thesis by simp
  next
    case False
    then have "h < k" by simp
    with k assms(4) have "ps ! k \<noteq> Fulfilled \<and> (\<forall>d. ps ! k \<noteq> Running d)" by simp
    moreover from \<open>h < k\<close> have "ps[h := c] ! k = ps ! k" by simp
    ultimately show ?thesis using st by simp
  qed
qed

lemma pending_ok_settle:
  assumes "pending_ok ps" "\<forall>j < h. \<forall>p. ps ! j \<noteq> Pending p" "\<forall>p. c \<noteq> Pending p"
  shows "pending_ok (ps[h := c])"
  unfolding pending_ok_def
proof (intro allI impI)
  fix k j
  assume k: "k < length (ps[h := c])" and j: "j < k"
    and pe: "\<exists>p. ps[h := c] ! j = Pending p"
  from k have j': "j < length ps" using j by simp
  from pe assms(3) j' have jh: "j \<noteq> h" by (auto simp: nth_list_update)
  with pe have pj: "\<exists>p. ps ! j = Pending p" by simp
  with assms(2) have "\<not> j < h" by blast
  with jh have "h < j" by simp
  with j have "k \<noteq> h" by simp
  moreover from assms(1) k j pj have "\<exists>q. ps ! k = Pending q" by (simp add: pending_ok_def)
  ultimately show "\<exists>q. ps[h := c] ! k = Pending q" by simp
qed

lemma started_ok_reject:
  assumes "started_ok ps" "c \<noteq> Fulfilled" "\<forall>d. c \<noteq> Running d"
    and "\<forall>k < length ps. h < k \<longrightarrow> ps ! k \<noteq> Fulfilled \<and> (\<forall>d. ps ! k \<noteq> Running d)"
  shows "started_ok (ps[h := c])"
  unfolding started_ok_def
proof (intro allI impI)
  fix k j
  assume k: "k < length (ps[h := c])" and j: "j < k"
    and st: "ps[h := c] ! k = Fulfilled \<or> (\<exists>d. ps[h := c] ! k = Running d)"
  from k have k': "k < length ps" by simp
  from st assms(2,3) k' have kh: "k \<noteq> h" by (auto simp: nth_list_update)
  with st have st': "ps ! k = Fulfilled \<or> (\<exists>d. ps ! k = Running d)" by simp
  with assms(4) k' have "\<not> h < k" by blast
  with kh j have "j \<noteq> h" by simp
  moreover from assms(1) k' j st' have "ps ! j = Fulfilled" unfolding started_ok_def by blast
  ultimately show "ps[h := c] ! j = Fulfilled" by simp
qed

lemma after_running_not_started:
  "started_ok ps \<Longrightarrow> ps ! h = Running d \<Longrightarrow> h < k \<Longrightarrow> k < length ps \<Longrightarrow>
   ps ! k \<noteq> Fulfilled \<and> (\<forall>d'. ps ! k \<noteq> Running d')"
  unfolding started_ok_def by (metis promise.distinct(7))

lemma after_pending_pending:
  "pending_ok ps \<Longrightarrow> ps ! h = Pending p \<Longrightarrow> h < k \<Longrightarrow> k < length ps \<Longrightarrow>
   ps ! k \<noteq> Fulfilled \<and> (\<forall>d. ps ! k \<noteq> Running d)"
  by (auto simp: pending_ok_def)

lemma chain_ok_job: "chain_ok w \<Longrightarrow> chain_ok (job h w)"
proof -
  assume ok: "chain_ok w"
  let ?ps = "promises w"
  show ?thesis
  proof (cases "\<exists>p. cell w h = Some (Pending p)")
    case False
    then show ?thesis using ok by (auto simp: job_def split: option.splits promise.splits)
  next
    case True
    then obtain p where hp: "h < length ?ps" "?ps ! h = Pending p"
      by (auto simp: cell_def split: if_splits)
    with ok have h: "h = Suc p" by (simp add: chain_ok_def parents_ok_def)
    with hp have p: "p < length ?ps" by simp
    have cp: "cell w p = Some (?ps ! p)" using p by (simp add: cell_def)
    have ch: "cell w h = Some (Pending p)" using hp by (simp add: cell_def)
    show ?thesis
    proof (cases "?ps ! p")
      case (Pending q)
      then show ?thesis using ok cp ch by (simp add: job_def)
    next
      case (Running d)
      then show ?thesis using ok cp ch by (simp add: job_def)
    next
      case Fulfilled
      have bf: "\<forall>j < h. ?ps ! j = Fulfilled"
        using before_pending_fulfilled [of ?ps h p] ok hp Fulfilled by (simp add: chain_ok_def)
      have af: "\<forall>k < length ?ps. h < k \<longrightarrow> ?ps ! k \<noteq> Fulfilled \<and> (\<forall>d. ?ps ! k \<noteq> Running d)"
        using after_pending_pending [of ?ps h p] ok hp by (simp add: chain_ok_def)
      have j: "job h w = w\<lparr>promises := ?ps[h := Running (persist_data w)], started := started w @ [h]\<rparr>"
        using cp ch Fulfilled by (simp add: job_def)
      have "parents_ok (?ps[h := Running (persist_data w)])"
        using ok by (simp add: chain_ok_def parents_ok_settle)
      moreover have "started_ok (?ps[h := Running (persist_data w)])"
        using ok hp bf af by (simp add: chain_ok_def started_ok_start)
      moreover have "pending_ok (?ps[h := Running (persist_data w)])"
        using ok bf by (simp add: chain_ok_def pending_ok_settle)
      moreover have "(?ps[h := Running (persist_data w)]) ! 0 = Fulfilled"
        using ok h by (simp add: chain_ok_def)
      ultimately show ?thesis using ok j by (simp add: chain_ok_def)
    next
      case (Rejected e)
      have np: "\<forall>j < h. \<forall>q. ?ps ! j \<noteq> Pending q"
      proof (intro allI impI)
        fix j q assume "j < h"
        show "?ps ! j \<noteq> Pending q"
        proof
          assume a: "?ps ! j = Pending q"
          show False
          proof (cases "j = p")
            case True with a Rejected show False by simp
          next
            case False
            with \<open>j < h\<close> h have "j < p" by simp
            with ok p a have "\<exists>q'. ?ps ! p = Pending q'"
              unfolding chain_ok_def pending_ok_def by blast
            with Rejected show False by simp
          qed
        qed
      qed
      have j: "job h w = w\<lparr>promises := ?ps[h := Rejected e]\<rparr>"
        using cp ch Rejected by (simp add: job_def)
      have "parents_ok (?ps[h := Rejected e])"
        using ok by (simp add: chain_ok_def parents_ok_settle)
      moreover have "started_ok (?ps[h := Rejected e])"
      proof (rule started_ok_reject)
        show "started_ok ?ps" using ok by (simp add: chain_ok_def)
        show "\<forall>k < length ?ps. h < k \<longrightarrow> ?ps ! k \<noteq> Fulfilled \<and> (\<forall>d. ?ps ! k \<noteq> Running d)"
          using after_pending_pending [of ?ps h p] ok hp by (simp add: chain_ok_def)
      qed simp_all
      moreover have "pending_ok (?ps[h := Rejected e])"
        using ok np by (simp add: chain_ok_def pending_ok_settle)
      moreover have "(?ps[h := Rejected e]) ! 0 = Fulfilled"
        using ok h by (simp add: chain_ok_def)
      ultimately show ?thesis using ok j by (simp add: chain_ok_def)
    qed
  qed
qed

lemma chain_ok_write:
  assumes ok: "chain_ok w" and run: "cell w h = Some (Running data)"
    and c: "c = Fulfilled \<or> (\<exists>e. c = Rejected e)"
  shows "chain_ok (w\<lparr>promises := (promises w)[h := c], disk := d\<rparr>)"
proof -
  let ?ps = "promises w"
  from run have hp: "h < length ?ps" "?ps ! h = Running data"
    by (auto simp: cell_def split: if_splits)
  have bf: "\<forall>j < h. ?ps ! j = Fulfilled"
    using ok hp unfolding chain_ok_def started_ok_def by blast
  have af: "\<forall>k < length ?ps. h < k \<longrightarrow> ?ps ! k \<noteq> Fulfilled \<and> (\<forall>d. ?ps ! k \<noteq> Running d)"
    using after_running_not_started [of ?ps h data] ok hp by (simp add: chain_ok_def)
  have h0: "h \<noteq> 0"
  proof
    assume "h = 0"
    with hp have "?ps ! 0 = Running data" by simp
    with ok show False by (simp add: chain_ok_def)
  qed
  have "parents_ok (?ps[h := c])"
    using ok c by (auto simp: chain_ok_def parents_ok_settle)
  moreover have "started_ok (?ps[h := c])"
  proof (cases "c = Fulfilled")
    case True
    then show ?thesis using ok hp bf af by (simp add: chain_ok_def started_ok_start)
  next
    case False
    with c obtain e where "c = Rejected e" by blast
    then show ?thesis using ok af by (simp add: chain_ok_def started_ok_reject)
  qed
  moreover have "pending_ok (?ps[h := c])"
    using ok bf c by (auto simp: chain_ok_def pending_ok_settle)
  moreover have "(?ps[h := c]) ! 0 = Fulfilled"
    using ok h0 by (simp add: chain_ok_def)
  ultimately show ?thesis using ok by (simp add: chain_ok_def)
qed

lemma chain_ok_write_done: "chain_ok w \<Longrightarrow> chain_ok (write_done h w)"
  by (auto simp: write_done_def chain_ok_write split: option.splits promise.splits)

lemma chain_ok_write_failed: "chain_ok w \<Longrightarrow> chain_ok (write_failed h c d w)"
  by (auto simp: write_failed_def chain_ok_write split: option.splits promise.splits)

lemma chain_ok_step: "chain_ok w \<Longrightarrow> chain_ok (step ev w)"
proof (cases ev)
  case (Create u)
  assume "chain_ok w"
  then show ?thesis using Create chain_ok_enqueue [of "w\<lparr>users := map_set (users w) (id' u) u\<rparr>"]
    by (simp add: create_def Let_def split_beta)
next
  case (Update u)
  assume "chain_ok w"
  then show ?thesis using Update chain_ok_enqueue [of "w\<lparr>users := map_set (users w) (id' u) u\<rparr>"]
    by (simp add: update_def Let_def split_beta)
next
  case (Delete i)
  assume "chain_ok w"
  then show ?thesis using Delete chain_ok_enqueue [of "w\<lparr>users := map_delete (users w) i\<rparr>"]
    by (simp add: delete_def Let_def split_beta)
qed (simp_all add: chain_ok_job chain_ok_write_done chain_ok_write_failed)

lemma chain_ok_exec: "chain_ok w \<Longrightarrow> chain_ok (exec evs w)"
  by (induction evs arbitrary: w) (simp_all add: exec_Nil exec_Cons chain_ok_step)

section \<open>The fuel of \<open>JSON.parse\<close> is enough\<close>

text \<open>
  \<open>JSON.parse\<close> gives its descent twice the length of the text as fuel. No parse needs
  more: whenever some fuel parses the whole text, \<open>JSON.parse\<close> returns that value, so
  \<open>None\<close> always is a syntax error of the text.
\<close>

lemma length_skip_ws: "length (skip_ws cs) \<le> length cs"
  by (induction cs) auto

lemma skip_ws_Cons_length: "skip_ws cs = c # r \<Longrightarrow> length r < length cs"
  using length_skip_ws [of cs] by simp

lemma cons_unit_SomeD:
  "cons_unit c p = Some (s, r) \<Longrightarrow> \<exists>s'. p = Some (s', r) \<and> s = c # s'"
  by (cases p) (auto simp: cons_unit_def)

lemma map_option_SomeD:
  "map_option (\<lambda>(xs, rest). (f xs, rest)) p = Some (ys, r) \<Longrightarrow> \<exists>xs. p = Some (xs, r) \<and> ys = f xs"
  by (cases p) auto

lemma parse_chars_shorter: "parse_chars cs = Some (s, r) \<Longrightarrow> length r < length cs"
proof (induction cs arbitrary: s r rule: parse_chars.induct)
  case 1
  then show ?case by simp
next
  case (2 c cs)
  show ?case
  proof (cases "c = 34")
    case True
    with 2(4) show ?thesis by simp
  next
    case n34: False
    show ?thesis
    proof (cases "c = 92")
      case True
      show ?thesis
      proof (cases cs)
        case Nil
        with 2(4) True n34 show ?thesis by simp
      next
        case (Cons e t)
        show ?thesis
        proof (cases "e = 117")
          case u: True
          show ?thesis
          proof (cases "hex4 (take 4 t)")
            case None
            with 2(4) True n34 Cons u show ?thesis by simp
          next
            case (Some x)
            with 2(4) True n34 Cons u have "cons_unit x (parse_chars (drop 4 t)) = Some (s, r)" by simp
            then obtain s' where "parse_chars (drop 4 t) = Some (s', r)" by (auto dest: cons_unit_SomeD)
            with 2(1) [OF n34 True Cons u Some] have "length r < length (drop 4 t)" by simp
            with Cons show ?thesis by simp
          qed
        next
          case nu: False
          show ?thesis
          proof (cases "unescape e")
            case None
            with 2(4) True n34 Cons nu show ?thesis by simp
          next
            case (Some x)
            with 2(4) True n34 Cons nu have "cons_unit x (parse_chars t) = Some (s, r)" by simp
            then obtain s' where "parse_chars t = Some (s', r)" by (auto dest: cons_unit_SomeD)
            with 2(2) [OF n34 True Cons nu Some] have "length r < length t" by simp
            with Cons show ?thesis by simp
          qed
        qed
      qed
    next
      case n92: False
      show ?thesis
      proof (cases "c < 32")
        case True
        with 2(4) n34 n92 show ?thesis by simp
      next
        case False
        with 2(4) n34 n92 have "cons_unit c (parse_chars cs) = Some (s, r)" by simp
        then obtain s' where "parse_chars cs = Some (s', r)" by (auto dest: cons_unit_SomeD)
        with 2(3) [OF n34 n92 False] show ?thesis by fastforce
      qed
    qed
  qed
qed

lemma scan_digits_shorter: "scan_digits cs = Some (ds, r) \<Longrightarrow> length r < length cs"
proof -
  assume a: "scan_digits cs = Some (ds, r)"
  then have "takeWhile is_digit cs \<noteq> []" "r = dropWhile is_digit cs"
    by (auto simp: scan_digits_def split: if_splits)
  moreover have "length (takeWhile is_digit cs) + length (dropWhile is_digit cs) = length cs"
    by (metis length_append takeWhile_dropWhile_id)
  ultimately show ?thesis by (cases "takeWhile is_digit cs") auto
qed

lemma scan_int_shorter: "scan_int cs = Some (ds, r) \<Longrightarrow> length r < length cs"
  by (cases cs) (auto simp: scan_int_def dest: scan_digits_shorter split: if_splits)

lemma scan_frac_le: "scan_frac cs = Some (ds, r) \<Longrightarrow> length r \<le> length cs"
  by (cases cs) (auto simp: scan_frac_def dest!: scan_digits_shorter split: if_splits)

lemma scan_exp_le: "scan_exp cs = Some (ds, r) \<Longrightarrow> length r \<le> length cs"
  apply (cases cs)
   apply (simp add: scan_exp_def)
  subgoal for c t
    by (cases t) (auto simp: scan_exp_def dest!: scan_digits_shorter split: if_splits)
  done

lemma parse_number_shorter: "parse_number cs = Some (v, r) \<Longrightarrow> length r < length cs"
proof -
  assume a: "parse_number cs = Some (v, r)"
  obtain sign r0 where s: "(case cs of [] \<Rightarrow> ([], cs) | c # t \<Rightarrow> if c = 45 then ([c], t) else ([], cs)) = (sign, r0)"
    by (cases "(case cs of [] \<Rightarrow> ([], cs) | c # t \<Rightarrow> if c = 45 then ([c], t) else ([], cs))") auto
  then have l0: "length r0 \<le> length cs" by (cases cs) (auto split: if_splits)
  from a s obtain i r1 where i: "scan_int r0 = Some (i, r1)"
    by (auto simp: parse_number_def split: option.splits)
  from a s i obtain f r2 where f: "scan_frac r1 = Some (f, r2)"
    by (auto simp: parse_number_def split: option.splits)
  from a s i f obtain e where e: "scan_exp r2 = Some (e, r)"
    by (auto simp: parse_number_def split: option.splits)
  from scan_int_shorter [OF i] scan_frac_le [OF f] scan_exp_le [OF e] l0 show ?thesis by simp
qed

lemma parse_literal_shorter: "parse_literal cs = Some (v, r) \<Longrightarrow> length r < length cs"
proof -
  assume a: "parse_literal cs = Some (v, r)"
  have t: "take n cs = str s \<Longrightarrow> length (str s) = n \<Longrightarrow> n \<le> length cs" for n s
    by (metis length_take min.cobounded1 min_def nat_le_linear)
  show ?thesis
  proof (cases "take 4 cs = str ''true''")
    case True
    then have "4 \<le> length cs" using t [of 4 "''true''"] by (simp add: str_def)
    with a True show ?thesis by (auto simp: parse_literal_def)
  next
    case nt: False
    show ?thesis
    proof (cases "take 5 cs = str ''false''")
      case True
      then have "5 \<le> length cs" using t [of 5 "''false''"] by (simp add: str_def)
      with a nt True show ?thesis by (auto simp: parse_literal_def)
    next
      case nf: False
      show ?thesis
      proof (cases "take 4 cs = str ''null''")
        case True
        then have "4 \<le> length cs" using t [of 4 "''null''"] by (simp add: str_def)
        with a nt nf True show ?thesis by (auto simp: parse_literal_def)
      next
        case False
        with a nt nf show ?thesis by (auto simp: parse_literal_def dest: parse_number_shorter)
      qed
    qed
  qed
qed

lemma enoughD:
  assumes "enough parse n" "parse n cs = Some (v, r)"
  shows "length r < length cs"
    and "2 * (length cs - length r) \<le> m \<Longrightarrow> parse m cs = Some (v, r)"
  using assms unfolding enough_def by blast+

lemma enough_value_step:
  assumes E: "enough parse_elements n" and M: "enough parse_members n"
  shows "enough parse_value (Suc n)"
  unfolding enough_def
proof (intro allI impI)
  fix cs v r
  assume a: "parse_value (Suc n) cs = Some (v, r)"
  from a obtain c t where sk: "skip_ws cs = c # t" by (cases "skip_ws cs") auto
  note lt = skip_ws_Cons_length [OF sk]
  have goal: "length r < length cs \<and> (\<forall>m'. 2 * (length cs - length r) \<le> Suc m' \<longrightarrow>
      parse_value (Suc m') cs = Some (v, r))"
  proof (cases "c = 34")
    case True
    with a sk obtain s where s: "parse_chars t = Some (s, r)" "v = JString s" by auto
    from parse_chars_shorter [OF s(1)] lt have "length r < length cs" by simp
    moreover have "parse_value (Suc m') cs = Some (v, r)" for m' using sk True s by simp
    ultimately show ?thesis by blast
  next
    case n34: False
    show ?thesis
    proof (cases "c = 91")
      case True
      from a sk True obtain d t' where sk2: "skip_ws t = d # t'" by (cases "skip_ws t") auto
      note lt2 = skip_ws_Cons_length [OF sk2]
      show ?thesis
      proof (cases "d = 93")
        case d: True
        with a sk True sk2 have "v = JArray []" "r = t'" by auto
        moreover have "parse_value (Suc m') cs = Some (JArray [], t')" for m'
          using sk True sk2 d by simp
        ultimately show ?thesis using lt lt2 by simp
      next
        case d: False
        with a sk True sk2 obtain xs where xs: "parse_elements n t = Some (xs, r)" "v = JArray xs"
          by auto
        note e = enoughD [OF E xs(1)]
        have "parse_value (Suc m') cs = Some (v, r)" if "2 * (length cs - length r) \<le> Suc m'" for m'
        proof -
          from that e(1) lt have "2 * (length t - length r) \<le> m'" by simp
          from e(2) [OF this] show ?thesis using sk True sk2 d xs(2) by simp
        qed
        then show ?thesis using e(1) lt by simp
      qed
    next
      case n91: False
      show ?thesis
      proof (cases "c = 123")
        case True
        from a sk True obtain d t' where sk2: "skip_ws t = d # t'" by (cases "skip_ws t") auto
        note lt2 = skip_ws_Cons_length [OF sk2]
        show ?thesis
        proof (cases "d = 125")
          case d: True
          with a sk True sk2 have "v = JObject []" "r = t'" by auto
          moreover have "parse_value (Suc m') cs = Some (JObject [], t')" for m'
            using sk True sk2 d by simp
          ultimately show ?thesis using lt lt2 by simp
        next
          case d: False
          with a sk True sk2 obtain ms where ms: "parse_members n t = Some (ms, r)" "v = JObject ms"
            by auto
          note e = enoughD [OF M ms(1)]
          have "parse_value (Suc m') cs = Some (v, r)" if "2 * (length cs - length r) \<le> Suc m'" for m'
          proof -
            from that e(1) lt have "2 * (length t - length r) \<le> m'" by simp
            from e(2) [OF this] show ?thesis using sk True sk2 d ms(2) by simp
          qed
          then show ?thesis using e(1) lt by simp
        qed
      next
        case n123: False
        with a sk n34 n91 have l: "parse_literal (c # t) = Some (v, r)" by simp
        from parse_literal_shorter [OF l] lt have "length r < length cs" by simp
        moreover have "parse_value (Suc m') cs = Some (v, r)" for m'
          using sk n34 n91 n123 l by simp
        ultimately show ?thesis by blast
      qed
    qed
  qed
  show "length r < length cs \<and> (\<forall>m. 2 * (length cs - length r) \<le> m \<longrightarrow> parse_value m cs = Some (v, r))"
  proof (intro conjI allI impI)
    show "length r < length cs" using goal by blast
    fix m
    assume m: "2 * (length cs - length r) \<le> m"
    with goal obtain m' where "m = Suc m'" by (cases m) auto
    with m goal show "parse_value m cs = Some (v, r)" by blast
  qed
qed

lemma enough_elements_step:
  assumes V: "enough parse_value n" and E: "enough parse_elements n"
  shows "enough parse_elements (Suc n)"
  unfolding enough_def
proof (intro allI impI)
  fix cs xs r
  assume a: "parse_elements (Suc n) cs = Some (xs, r)"
  from a obtain v r1 where v: "parse_value n cs = Some (v, r1)"
    by (cases "parse_value n cs") auto
  note ev = enoughD [OF V v]
  from a v obtain c r2 where sk: "skip_ws r1 = c # r2" by (cases "skip_ws r1") auto
  note lt = skip_ws_Cons_length [OF sk]
  have goal: "length r < length cs \<and> (\<forall>m'. 2 * (length cs - length r) \<le> Suc m' \<longrightarrow>
      parse_elements (Suc m') cs = Some (xs, r))"
  proof (cases "c = 44")
    case True
    with a v sk obtain xs' where x: "parse_elements n r2 = Some (xs', r)" "xs = v # xs'"
      by (auto dest: map_option_SomeD)
    note ee = enoughD [OF E x(1)]
    have "parse_elements (Suc m') cs = Some (xs, r)" if "2 * (length cs - length r) \<le> Suc m'" for m'
    proof -
      from that ev(1) ee(1) lt have 1: "2 * (length cs - length r1) \<le> m'" by simp
      from that ev(1) ee(1) lt have 2: "2 * (length r2 - length r) \<le> m'" by simp
      from ev(2) [OF 1] ee(2) [OF 2] show ?thesis using sk True x(2) by simp
    qed
    then show ?thesis using ev(1) ee(1) lt by simp
  next
    case n44: False
    show ?thesis
    proof (cases "c = 93")
      case True
      with a v sk n44 have x: "xs = [v]" "r = r2" by auto
      have "parse_elements (Suc m') cs = Some (xs, r)" if "2 * (length cs - length r) \<le> Suc m'" for m'
      proof -
        from that ev(1) lt x have 1: "2 * (length cs - length r1) \<le> m'" by simp
        from ev(2) [OF 1] show ?thesis using sk True n44 x by simp
      qed
      then show ?thesis using ev(1) lt x by simp
    next
      case False
      with a v sk n44 show ?thesis by simp
    qed
  qed
  show "length r < length cs \<and> (\<forall>m. 2 * (length cs - length r) \<le> m \<longrightarrow> parse_elements m cs = Some (xs, r))"
  proof (intro conjI allI impI)
    show "length r < length cs" using goal by blast
    fix m
    assume m: "2 * (length cs - length r) \<le> m"
    with goal obtain m' where "m = Suc m'" by (cases m) auto
    with m goal show "parse_elements m cs = Some (xs, r)" by blast
  qed
qed

lemma enough_members_step:
  assumes V: "enough parse_value n" and M: "enough parse_members n"
  shows "enough parse_members (Suc n)"
  unfolding enough_def
proof (intro allI impI)
  fix cs ms r
  assume a: "parse_members (Suc n) cs = Some (ms, r)"
  from a obtain q t where sk0: "skip_ws cs = q # t" by (cases "skip_ws cs") auto
  from a sk0 have q: "q = 34" by (auto split: if_splits)
  note l0 = skip_ws_Cons_length [OF sk0]
  from a sk0 q obtain k r1 where k: "parse_chars t = Some (k, r1)"
    by (cases "parse_chars t") auto
  note l1 = parse_chars_shorter [OF k]
  from a sk0 q k obtain c r2 where sk1: "skip_ws r1 = c # r2" by (cases "skip_ws r1") auto
  from a sk0 q k sk1 have c: "c = 58" by (auto split: if_splits)
  note l2 = skip_ws_Cons_length [OF sk1]
  from a sk0 q k sk1 c obtain v r3 where v: "parse_value n r2 = Some (v, r3)"
    by (cases "parse_value n r2") auto
  note ev = enoughD [OF V v]
  from a sk0 q k sk1 c v obtain d r4 where sk3: "skip_ws r3 = d # r4" by (cases "skip_ws r3") auto
  note l3 = skip_ws_Cons_length [OF sk3]
  have goal: "length r < length cs \<and> (\<forall>m'. 2 * (length cs - length r) \<le> Suc m' \<longrightarrow>
      parse_members (Suc m') cs = Some (ms, r))"
  proof (cases "d = 44")
    case True
    with a sk0 q k sk1 c v sk3 obtain ms' where x: "parse_members n r4 = Some (ms', r)" "ms = (k, v) # ms'"
      by (auto dest: map_option_SomeD)
    note em = enoughD [OF M x(1)]
    have "parse_members (Suc m') cs = Some (ms, r)" if "2 * (length cs - length r) \<le> Suc m'" for m'
    proof -
      from that ev(1) em(1) l0 l1 l2 l3 have 1: "2 * (length r2 - length r3) \<le> m'" by simp
      from that ev(1) em(1) l0 l1 l2 l3 have 2: "2 * (length r4 - length r) \<le> m'" by simp
      from ev(2) [OF 1] em(2) [OF 2] show ?thesis using sk0 q k sk1 c sk3 True x(2) by simp
    qed
    then show ?thesis using ev(1) em(1) l0 l1 l2 l3 by simp
  next
    case n44: False
    show ?thesis
    proof (cases "d = 125")
      case True
      with a sk0 q k sk1 c v sk3 n44 have x: "ms = [(k, v)]" "r = r4" by auto
      have "parse_members (Suc m') cs = Some (ms, r)" if "2 * (length cs - length r) \<le> Suc m'" for m'
      proof -
        from that ev(1) l0 l1 l2 l3 x have 1: "2 * (length r2 - length r3) \<le> m'" by simp
        from ev(2) [OF 1] show ?thesis using sk0 q k sk1 c sk3 True n44 x by simp
      qed
      then show ?thesis using ev(1) l0 l1 l2 l3 x by simp
    next
      case False
      with a sk0 q k sk1 c v sk3 n44 show ?thesis by simp
    qed
  qed
  show "length r < length cs \<and> (\<forall>m. 2 * (length cs - length r) \<le> m \<longrightarrow> parse_members m cs = Some (ms, r))"
  proof (intro conjI allI impI)
    show "length r < length cs" using goal by blast
    fix m
    assume m: "2 * (length cs - length r) \<le> m"
    with goal obtain m' where "m = Suc m'" by (cases m) auto
    with m goal show "parse_members m cs = Some (ms, r)" by blast
  qed
qed

lemma enough_all:
  "enough parse_value n \<and> enough parse_elements n \<and> enough parse_members n"
proof (induction n)
  case 0
  show ?case by (simp add: enough_def)
next
  case (Suc n)
  then show ?case
    using enough_value_step [of n] enough_elements_step [of n] enough_members_step [of n] by blast
qed

lemma JSON_parse_complete:
  assumes "parse_value n cs = Some (v, r)" "skip_ws r = []"
  shows "JSON_parse cs = Some v"
proof -
  have e: "enough parse_value n" using enough_all by blast
  have "2 * (length cs - length r) \<le> 2 * length cs + 2" by simp
  from enoughD(2) [OF e assms(1) this] assms(2) show ?thesis by (simp add: JSON_parse_def)
qed

lemma JSON_parse_None:
  "JSON_parse cs = None \<Longrightarrow> parse_value n cs = Some (v, r) \<Longrightarrow> skip_ws r \<noteq> []"
  using JSON_parse_complete [of n cs v r] by auto

section \<open>\<open>JSON.parse\<close> reads what \<open>JSON.stringify\<close> writes\<close>

lemma hex_val_digit: "d < 16 \<Longrightarrow> hex_val (hex_digit d) = Some d"
  by (auto simp: hex_val_def hex_digit_def)

lemma hex_sum:
  assumes "c < 65536"
  shows "(c div 4096 mod 16) * 4096 + (c div 256 mod 16) * 256 + (c div 16 mod 16) * 16 + c mod 16 = (c::nat)"
proof -
  have 1: "c div 16 div 16 = c div 256" by (simp add: div_mult2_eq [symmetric])
  have 2: "c div 256 div 16 = c div 4096" by (simp add: div_mult2_eq [symmetric])
  have 3: "c div 4096 mod 16 = c div 4096" using assms by (simp add: less_mult_imp_div_less)
  have a: "c = c div 16 * 16 + c mod 16" by simp
  have b: "c div 16 = c div 256 * 16 + c div 16 mod 16" using div_mult_mod_eq [of "c div 16" 16] 1 by simp
  have d: "c div 256 = c div 4096 * 16 + c div 256 mod 16" using div_mult_mod_eq [of "c div 256" 16] 2 by simp
  from a b d 3 show ?thesis by linarith
qed

lemma parse_chars_escape:
  assumes "c < 65536"
  shows "parse_chars (unicode_escape c @ rest) = cons_unit c (parse_chars rest)"
  using assms hex_sum [of c] by (simp add: unicode_escape_def hex_val_digit)

lemma parse_chars_plain:
  "c \<noteq> 34 \<Longrightarrow> c \<noteq> 92 \<Longrightarrow> \<not> c < 32 \<Longrightarrow> parse_chars (c # cs) = cons_unit c (parse_chars cs)"
  by simp

lemma parse_chars_esc2:
  "unescape e = Some u \<Longrightarrow> e \<noteq> 117 \<Longrightarrow> parse_chars (92 # e # r) = cons_unit u (parse_chars r)"
  by simp

lemma cons_unit_Some: "cons_unit c (Some (s, rest)) = Some (c # s, rest)"
  by (simp add: cons_unit_def)

lemma quote_esc2:
  "parse_chars (quote_units (8 # cs) @ t) = cons_unit 8 (parse_chars (quote_units cs @ t))"
  "parse_chars (quote_units (9 # cs) @ t) = cons_unit 9 (parse_chars (quote_units cs @ t))"
  "parse_chars (quote_units (10 # cs) @ t) = cons_unit 10 (parse_chars (quote_units cs @ t))"
  "parse_chars (quote_units (12 # cs) @ t) = cons_unit 12 (parse_chars (quote_units cs @ t))"
  "parse_chars (quote_units (13 # cs) @ t) = cons_unit 13 (parse_chars (quote_units cs @ t))"
  "parse_chars (quote_units (34 # cs) @ t) = cons_unit 34 (parse_chars (quote_units cs @ t))"
  "parse_chars (quote_units (92 # cs) @ t) = cons_unit 92 (parse_chars (quote_units cs @ t))"
  by (simp_all add: unescape_def)

lemma quote_two_char:
  "two_char c \<Longrightarrow>
   parse_chars (quote_units (c # cs) @ t) = cons_unit c (parse_chars (quote_units cs @ t))"
  unfolding two_char_def using quote_esc2 [of cs t] by blast

lemma quote_units_other:
  "\<not> two_char c \<Longrightarrow> quote_units (c # cs) =
     (if c < 32 then unicode_escape c @ quote_units cs
      else if is_high_surrogate c then
        (case cs of
           [] \<Rightarrow> unicode_escape c
         | d # ds \<Rightarrow>
             if is_low_surrogate d then c # d # quote_units ds
             else unicode_escape c @ quote_units cs)
      else if is_low_surrogate c then unicode_escape c @ quote_units cs
      else c # quote_units cs)"
  by (simp add: two_char_def)

lemma parse_chars_quote: "parse_chars (quote_units s @ 34 # rest) = Some (s, rest)"
proof (induction s rule: quote_units.induct)
  case 1
  show ?case by simp
next
  case (2 c cs)
  show ?case
  proof (cases "two_char c")
    case True
    then have "parse_chars (quote_units cs @ 34 # rest) = Some (cs, rest)"
      using 2 unfolding two_char_def by blast
    then show ?thesis using True by (simp only: quote_two_char cons_unit_Some)
  next
    case n1: False
    then have ne: "c \<noteq> 8" "c \<noteq> 9" "c \<noteq> 10" "c \<noteq> 12" "c \<noteq> 13" "c \<noteq> 34" "c \<noteq> 92"
      by (simp_all add: two_char_def)
    note q = quote_units_other [OF n1, of cs]
    show ?thesis
    proof (cases "c < 32")
      case True
      then have c: "c < 65536" by simp
      have ih: "parse_chars (quote_units cs @ 34 # rest) = Some (cs, rest)"
        using 2(8) ne True by blast
      have "quote_units (c # cs) = unicode_escape c @ quote_units cs" using q True by simp
      then show ?thesis using ih c by (simp only: append_assoc parse_chars_escape cons_unit_Some)
    next
      case n2: False
      show ?thesis
      proof (cases "is_high_surrogate c")
        case hi: True
        then have c: "c < 65536" by (simp add: is_high_surrogate_def)
        show ?thesis
        proof (cases cs)
          case Nil
          have "quote_units (c # cs) = unicode_escape c" using q n2 hi Nil by simp
          moreover have "parse_chars (34 # rest) = Some ([], rest)" by simp
          ultimately show ?thesis using c Nil
            by (simp only: parse_chars_escape cons_unit_Some)
        next
          case (Cons d ds)
          show ?thesis
          proof (cases "is_low_surrogate d")
            case True
            then have d: "d \<noteq> 34" "d \<noteq> 92" "\<not> d < 32" by (simp_all add: is_low_surrogate_def)
            have ih: "parse_chars (quote_units ds @ 34 # rest) = Some (ds, rest)"
              using 2(9) ne n2 hi Cons True by blast
            have "quote_units (c # cs) = c # d # quote_units ds" using q n2 hi Cons True by simp
            moreover have "parse_chars (c # d # quote_units ds @ 34 # rest)
                = cons_unit c (cons_unit d (parse_chars (quote_units ds @ 34 # rest)))"
              using parse_chars_plain [of c "d # quote_units ds @ 34 # rest"]
                parse_chars_plain [of d "quote_units ds @ 34 # rest"] d ne n2
              by presburger
            ultimately show ?thesis using ih Cons
              by (simp only: append_Cons cons_unit_Some)
          next
            case False
            have ih: "parse_chars (quote_units cs @ 34 # rest) = Some (cs, rest)"
              using 2(10) ne n2 hi Cons False by blast
            have "quote_units (c # cs) = unicode_escape c @ quote_units cs"
              using q n2 hi Cons False by simp
            then show ?thesis using ih c by (simp only: append_assoc parse_chars_escape cons_unit_Some)
          qed
        qed
      next
        case nh: False
        show ?thesis
        proof (cases "is_low_surrogate c")
          case True
          then have c: "c < 65536" by (simp add: is_low_surrogate_def)
          have ih: "parse_chars (quote_units cs @ 34 # rest) = Some (cs, rest)"
            using 2(11) ne n2 nh True by blast
          have "quote_units (c # cs) = unicode_escape c @ quote_units cs" using q n2 nh True by simp
          then show ?thesis using ih c by (simp only: append_assoc parse_chars_escape cons_unit_Some)
        next
          case False
          have ih: "parse_chars (quote_units cs @ 34 # rest) = Some (cs, rest)"
            using 2(12) ne n2 nh False by blast
          have "quote_units (c # cs) = c # quote_units cs" using q n2 nh False by simp
          moreover have "parse_chars (c # quote_units cs @ 34 # rest)
              = cons_unit c (parse_chars (quote_units cs @ 34 # rest))"
            using parse_chars_plain [of c "quote_units cs @ 34 # rest"] ne n2 by presburger
          ultimately show ?thesis using ih by (simp only: append_Cons cons_unit_Some)
        qed
      qed
    qed
  qed
qed

lemma skip_ws_append: "\<forall>c \<in> set ws. is_ws c \<Longrightarrow> skip_ws (ws @ rest) = skip_ws rest"
  by (induction ws) simp_all

lemma skip_ws_to:
  "\<forall>c \<in> set ws. is_ws c \<Longrightarrow> \<not> is_ws d \<Longrightarrow> skip_ws (ws @ d # rest) = d # rest"
  by (simp add: skip_ws_append)

lemma not_ws: "\<not> is_ws 34" "\<not> is_ws 58" "\<not> is_ws 44" "\<not> is_ws 125" "\<not> is_ws 93"
  "\<not> is_ws 91" "\<not> is_ws 123"
  by (simp_all add: is_ws_def)

lemma parse_value_string:
  assumes "\<forall>c \<in> set pre. is_ws c"
  shows "parse_value (Suc n) (pre @ QuoteJSONString s @ rest) = Some (JString s, rest)"
proof -
  have "skip_ws (pre @ QuoteJSONString s @ rest) = 34 # quote_units s @ 34 # rest"
    using skip_ws_to [OF assms not_ws(1), of "quote_units s @ 34 # rest"]
    by (simp add: QuoteJSONString_def)
  then show ?thesis by (simp add: parse_chars_quote)
qed

lemma parse_members_step:
  assumes "\<forall>c \<in> set pre. is_ws c"
  shows "parse_members (Suc (Suc n)) (pre @ QuoteJSONString k @ [58, 32] @ QuoteJSONString s @ tail) =
     (case skip_ws tail of
        [] \<Rightarrow> None
      | d # r4 \<Rightarrow>
          if d = 44 then map_option (\<lambda>(ms, rest). ((k, JString s) # ms, rest)) (parse_members (Suc n) r4)
          else if d = 125 then Some ([(k, JString s)], r4)
          else None)"
proof -
  have 1: "skip_ws (pre @ QuoteJSONString k @ [58, 32] @ QuoteJSONString s @ tail)
        = 34 # quote_units k @ 34 # [58, 32] @ QuoteJSONString s @ tail"
    using skip_ws_to [OF assms not_ws(1), of "quote_units k @ 34 # [58, 32] @ QuoteJSONString s @ tail"]
    by (simp add: QuoteJSONString_def)
  have 2: "parse_chars (quote_units k @ 34 # [58, 32] @ QuoteJSONString s @ tail)
        = Some (k, [58, 32] @ QuoteJSONString s @ tail)"
    by (rule parse_chars_quote)
  have 3: "skip_ws ([58, 32] @ QuoteJSONString s @ tail) = 58 # [32] @ QuoteJSONString s @ tail"
    by (simp add: not_ws)
  have 4: "parse_value (Suc n) ([32] @ QuoteJSONString s @ tail) = Some (JString s, tail)"
    by (rule parse_value_string) (simp add: is_ws_def)
  show ?thesis
    by (subst parse_members.simps) (simp only: 1 2 3 4 list.case option.case prod.case if_False if_True
          not_False_eq_True simp_thms)
qed

lemma parse_members_strings:
  assumes "string_members ms"
    and "\<forall>c \<in> set pre. is_ws c" "\<forall>c \<in> set ind. is_ws c" "\<forall>c \<in> set ind2. is_ws c"
    and "length ms < n"
  shows "parse_members n (pre @ join ([44, 10] @ ind2) (map (member_text ind2) ms) @ [10] @ ind @ [125] @ rest)
         = Some (ms, rest)"
  using assms
proof (induction ms arbitrary: n pre)
  case Nil
  then show ?case by (simp add: string_members_def)
next
  case (Cons m ms)
  obtain k s where m: "m = (k, JString s)"
    using Cons.prems(1) by (cases m) (auto simp: string_members_def)
  obtain n' where n: "n = Suc (Suc n')" "length ms \<le> n'"
    using Cons.prems(5) by (cases n; cases "n - 1") auto
  have mt: "member_text ind2 m = QuoteJSONString k @ [58, 32] @ QuoteJSONString s"
    using m by (simp add: member_text_def)
  show ?case
  proof (cases ms)
    case Nil
    have "skip_ws ([10] @ ind @ [125] @ rest) = 125 # rest"
      using skip_ws_to [of "10 # ind" 125 rest] Cons.prems(3) by (simp add: not_ws is_ws_def)
    then show ?thesis
      using Nil mt n parse_members_step [OF Cons.prems(2), of n' k s "[10] @ ind @ [125] @ rest"]
      by (simp add: m)
  next
    case (Cons m2 ms2)
    have sm: "string_members ms" using Cons.prems(1) Cons by (simp add: string_members_def)
    have ih: "parse_members (Suc n') ((10 # ind2) @ join ([44, 10] @ ind2) (map (member_text ind2) ms) @ [10] @ ind @ [125] @ rest)
         = Some (ms, rest)"
      using Cons.IH [of "10 # ind2" "Suc n'"] sm Cons.prems(3,4) n by (simp add: is_ws_def)
    have j: "join ([44, 10] @ ind2) (map (member_text ind2) (m # ms))
        = member_text ind2 m @ [44, 10] @ ind2 @ join ([44, 10] @ ind2) (map (member_text ind2) ms)"
      using Cons by simp
    show ?thesis
      using ih mt n j
        parse_members_step [OF Cons.prems(2), of n' k s
          "[44, 10] @ ind2 @ join ([44, 10] @ ind2) (map (member_text ind2) ms) @ [10] @ ind @ [125] @ rest"]
      by (simp add: m is_ws_def)
  qed
qed

lemma member_text_eq:
  "member_text ind = (\<lambda>(k, v). QuoteJSONString k @ [58, 32] @ stringify ind v)"
  by (auto simp: member_text_def fun_eq_iff)

lemma stringify_object:
  "ms \<noteq> [] \<Longrightarrow> stringify ind (JObject ms) =
     [123, 10] @ (ind @ [32, 32]) @
     join ([44, 10] @ (ind @ [32, 32])) (map (member_text (ind @ [32, 32])) ms) @ [10] @ ind @ [125]"
  unfolding member_text_eq by simp

lemma parse_value_object:
  assumes "string_members ms" "\<forall>c \<in> set pre. is_ws c" "\<forall>c \<in> set ind. is_ws c" "length ms < n"
  shows "parse_value (Suc n) (pre @ stringify ind (JObject ms) @ rest) = Some (JObject ms, rest)"
proof -
  let ?ind2 = "ind @ [32, 32]"
  let ?body = "join ([44, 10] @ ?ind2) (map (member_text ?ind2) ms) @ [10] @ ind @ [125] @ rest"
  have ne: "ms \<noteq> []" using assms(1) by (simp add: string_members_def)
  have w2: "\<forall>c \<in> set ?ind2. is_ws c" using assms(3) by (simp add: is_ws_def)
  have t: "pre @ stringify ind (JObject ms) @ rest = pre @ 123 # (10 # ?ind2) @ ?body"
    unfolding stringify_object [OF ne] by simp
  have 1: "skip_ws (pre @ 123 # (10 # ?ind2) @ ?body) = 123 # (10 # ?ind2) @ ?body"
    using skip_ws_to [OF assms(2) not_ws(7)] by simp
  obtain m ms' where ms: "ms = m # ms'" using ne by (cases ms) auto
  obtain k s where m: "m = (k, JString s)"
    using assms(1) ms by (cases m) (auto simp: string_members_def)
  have "\<exists>body'. ?body = 34 # body'"
    using ms m by (cases ms') (simp_all add: member_text_def QuoteJSONString_def)
  then obtain body' where b: "?body = 34 # body'" by blast
  have 2: "skip_ws ((10 # ?ind2) @ ?body) = 34 # body'"
    using skip_ws_to [of "10 # ?ind2" 34 body'] w2 b by (simp add: not_ws is_ws_def)
  have 3: "parse_members n ((10 # ?ind2) @ ?body) = Some (ms, rest)"
    using parse_members_strings [OF assms(1) _ assms(3) w2 assms(4), of "10 # ?ind2" rest] w2
    by (simp add: is_ws_def)
  show ?thesis
    unfolding t
    by (subst parse_value.simps) (simp only: 1 2 3 list.case option.case prod.case if_False if_True
          simp_thms option.map, simp)
qed

lemma stringify_flat_starts:
  "flat_object b x \<Longrightarrow> \<exists>t. stringify ind x = 123 # t"
  by (auto simp: flat_object_def string_members_def stringify_object)

lemma parse_elements_step:
  assumes "flat_object b x" "\<forall>c \<in> set pre. is_ws c" "\<forall>c \<in> set ind2. is_ws c" "b \<le> n"
  shows "parse_elements (Suc (Suc n)) (pre @ stringify ind2 x @ tail) =
     (case skip_ws tail of
        [] \<Rightarrow> None
      | c # r' \<Rightarrow>
          if c = 44 then map_option (\<lambda>(xs, rest). (x # xs, rest)) (parse_elements (Suc n) r')
          else if c = 93 then Some ([x], r')
          else None)"
proof -
  obtain ms where x: "x = JObject ms" "string_members ms" "length ms < n"
    using assms(1,4) by (auto simp: flat_object_def)
  have 1: "parse_value (Suc n) (pre @ stringify ind2 x @ tail) = Some (x, tail)"
    using parse_value_object [OF x(2) assms(2,3) x(3)] x(1) by simp
  show ?thesis
    by (subst parse_elements.simps) (simp only: 1 option.case prod.case)
qed

lemma parse_elements_objects:
  assumes "xs \<noteq> []" "\<forall>x \<in> set xs. flat_object b x"
    and "\<forall>c \<in> set pre. is_ws c" "\<forall>c \<in> set ind. is_ws c" "\<forall>c \<in> set ind2. is_ws c"
    and "length xs + b < n"
  shows "parse_elements n (pre @ join ([44, 10] @ ind2) (map (stringify ind2) xs) @ [10] @ ind @ [93] @ rest)
         = Some (xs, rest)"
  using assms
proof (induction xs arbitrary: n pre)
  case Nil
  then show ?case by simp
next
  case (Cons x xs)
  obtain n' where n: "n = Suc (Suc n')" "length xs + b \<le> n'"
    using Cons.prems(6) by (cases n; cases "n - 1") auto
  have fx: "flat_object b x" using Cons.prems(2) by simp
  have bn: "b \<le> n'" using n by simp
  show ?case
  proof (cases xs)
    case Nil
    have "skip_ws ([10] @ ind @ [93] @ rest) = 93 # rest"
      using skip_ws_to [of "10 # ind" 93 rest] Cons.prems(4) by (simp add: not_ws is_ws_def)
    then show ?thesis
      using Nil n parse_elements_step [OF fx Cons.prems(3,5) bn, of "[10] @ ind @ [93] @ rest"]
      by simp
  next
    case (Cons y ys)
    have ih: "parse_elements (Suc n') ((10 # ind2) @ join ([44, 10] @ ind2) (map (stringify ind2) xs) @ [10] @ ind @ [93] @ rest)
         = Some (xs, rest)"
      using Cons.IH [of "10 # ind2" "Suc n'"] Cons.prems(2,4,5) Cons n by (simp add: is_ws_def)
    have j: "join ([44, 10] @ ind2) (map (stringify ind2) (x # xs))
        = stringify ind2 x @ [44, 10] @ ind2 @ join ([44, 10] @ ind2) (map (stringify ind2) xs)"
      using Cons by simp
    show ?thesis
      unfolding j n
      using ih parse_elements_step [OF fx Cons.prems(3,5) bn, of
          "[44, 10] @ ind2 @ join ([44, 10] @ ind2) (map (stringify ind2) xs) @ [10] @ ind @ [93] @ rest"]
      by (simp add: is_ws_def)
  qed
qed

lemma parse_value_array:
  assumes "xs \<noteq> []" "\<forall>x \<in> set xs. flat_object b x"
    and "\<forall>c \<in> set pre. is_ws c" "\<forall>c \<in> set ind. is_ws c" "length xs + b < n"
  shows "parse_value (Suc n) (pre @ stringify ind (JArray xs) @ rest) = Some (JArray xs, rest)"
proof -
  let ?ind2 = "ind @ [32, 32]"
  let ?body = "join ([44, 10] @ ?ind2) (map (stringify ?ind2) xs) @ [10] @ ind @ [93] @ rest"
  have w2: "\<forall>c \<in> set ?ind2. is_ws c" using assms(4) by (simp add: is_ws_def)
  have t: "pre @ stringify ind (JArray xs) @ rest = pre @ 91 # (10 # ?ind2) @ ?body"
    using assms(1) by simp
  have 1: "skip_ws (pre @ 91 # (10 # ?ind2) @ ?body) = 91 # (10 # ?ind2) @ ?body"
    using skip_ws_to [OF assms(3) not_ws(6)] by simp
  obtain x xs' where xs: "xs = x # xs'" using assms(1) by (cases xs) auto
  obtain t0 where t0: "stringify ?ind2 x = 123 # t0"
    using stringify_flat_starts [of b x ?ind2] assms(2) xs by auto
  have "\<exists>body'. ?body = 123 # body'"
    using xs t0 by (cases xs') simp_all
  then obtain body' where b: "?body = 123 # body'" by blast
  have 2: "skip_ws ((10 # ?ind2) @ ?body) = 123 # body'"
    using skip_ws_to [of "10 # ?ind2" 123 body'] w2 b by (simp add: not_ws is_ws_def)
  have 3: "parse_elements n ((10 # ?ind2) @ ?body) = Some (xs, rest)"
    using parse_elements_objects [OF assms(1,2) _ assms(4) w2 assms(5), of "10 # ?ind2" rest] w2
    by (simp add: is_ws_def)
  show ?thesis
    unfolding t
    by (subst parse_value.simps) (simp only: 1 2 3 list.case option.case prod.case if_False if_True
          simp_thms option.map, simp)
qed

lemma keys_of_facts: "distinct (keys_of q)" "set (keys_of q) = set user_keys"
  using keys_of [of q] by simp_all

lemma length_keys_of: "length (keys_of q) = 5"
proof -
  have "card (set (keys_of q)) = length (keys_of q)"
    by (rule distinct_card) (rule keys_of_facts)
  then have "length (keys_of q) = card (set (keys_of q))" by (rule sym)
  also have "\<dots> = card (set user_keys)" by (simp add: keys_of_facts)
  also have "\<dots> = length user_keys"
    by (rule distinct_card) (simp add: user_keys_def str_def)
  finally show ?thesis by (simp add: user_keys_def)
qed

lemma user_json_flat: "flat_object 6 (user_json u)"
proof -
  have "keys_of (own_keys u) \<noteq> []" using length_keys_of [of "own_keys u"] by auto
  then show ?thesis
    by (auto simp: user_json_def flat_object_def string_members_def length_keys_of)
qed

lemma length_join_ge: "\<forall>x \<in> set xs. x \<noteq> [] \<Longrightarrow> length xs \<le> length (join sep xs)"
proof (induction sep xs rule: join.induct)
  case (2 sep x)
  then show ?case by (cases x) simp_all
next
  case (3 sep x y ys)
  then show ?case by (cases x) simp_all
qed simp

lemma stringify_array_length:
  assumes "xs \<noteq> []" "\<forall>x \<in> set xs. flat_object b x"
  shows "length xs + 6 \<le> length (stringify [] (JArray xs))"
proof -
  have "\<forall>t \<in> set (map (stringify [32, 32]) xs). t \<noteq> []"
    using assms(2) stringify_flat_starts [of b _ "[32, 32]"] by fastforce
  from length_join_ge [OF this, of "[44, 10, 32, 32]"] assms(1) show ?thesis by simp
qed

lemma JSON_parse_empty_array: "JSON_parse (JSON_stringify (JArray [])) = Some (JArray [])"
proof -
  have "parse_value (Suc n) [91, 93] = Some (JArray [], [])" for n
    by (simp add: is_ws_def)
  moreover have "2 * length [91, 93 :: nat] + 2 = Suc 5" by simp
  ultimately have "parse_value (2 * length [91, 93 :: nat] + 2) [91, 93] = Some (JArray [], [])"
    by (simp only:)
  then show ?thesis by (simp add: JSON_parse_def JSON_stringify_def str_def del: parse_value.simps)
qed

lemma JSON_parse_flat_array:
  assumes "\<forall>x \<in> set xs. flat_object 6 x"
  shows "JSON_parse (JSON_stringify (JArray xs)) = Some (JArray xs)"
proof (cases "xs = []")
  case True
  then show ?thesis by (simp add: JSON_parse_empty_array)
next
  case False
  define body where "body = stringify [] (JArray xs)"
  have len: "length xs + 6 \<le> length body"
    unfolding body_def using stringify_array_length [OF False assms] .
  then have fuel: "length xs + 6 < 2 * length body + 1" by simp
  have "parse_value (Suc (2 * length body + 1)) ([] @ stringify [] (JArray xs) @ []) = Some (JArray xs, [])"
    by (rule parse_value_array [OF False assms _ _ fuel]) simp_all
  then have "parse_value (Suc (2 * length body + 1)) body = Some (JArray xs, [])"
    unfolding body_def by (simp only: append_Nil append_Nil2)
  moreover have "2 * length body + 2 = Suc (2 * length body + 1)" by simp
  ultimately have "parse_value (2 * length body + 2) body = Some (JArray xs, [])"
    by (simp only:)
  then have "JSON_parse body = Some (JArray xs)"
    by (simp add: JSON_parse_def del: parse_value.simps)
  then show ?thesis by (simp only: JSON_stringify_def body_def)
qed

lemma JSON_roundtrip_users:
  "JSON_parse (JSON_stringify (JArray (map user_json us))) = Some (JArray (map user_json us))"
  by (rule JSON_parse_flat_array) (simp add: user_json_flat)

lemma key_order_of_keys: "key_order_of (keys_of q) = q"
  by transfer simp

lemma object_keys_user_json: "object_keys (user_json u) = keys_of (own_keys u)"
  by (simp add: object_keys_def user_json_def comp_def)

lemma property_user_json:
  "k \<in> set user_keys \<Longrightarrow> property (user_json u) k = Some (JString (user_prop u k))"
  by (simp add: property_def user_json_def map_of_map_restrict keys_of_facts)

lemma get_string_user_json:
  "k \<in> set user_keys \<Longrightarrow> get_string (user_json u) k = user_prop u k"
  by (simp add: get_string_def user_json_def map_of_map_restrict keys_of_facts)

lemma user_keys_mem:
  "str ''id'' \<in> set user_keys" "str ''name'' \<in> set user_keys" "str ''email'' \<in> set user_keys"
  "str ''created_at'' \<in> set user_keys" "str ''updated_at'' \<in> set user_keys"
  by (simp_all add: user_keys_def)

lemma user_prop_simps:
  "user_prop u (str ''id'') = id' u" "user_prop u (str ''name'') = name u"
  "user_prop u (str ''email'') = email u" "user_prop u (str ''created_at'') = created_at u"
  "user_prop u (str ''updated_at'') = updated_at u"
  by (simp_all add: user_prop_def str_def)

lemma as_User_user_json: "as_User (user_json u) = Some u"
proof -
  let ?v = "\<lparr>id' = id' u, name = name u, email = email u, created_at = created_at u,
             updated_at = updated_at u, own_keys = own_keys u\<rparr>"
  have v: "?v = u" by simp
  have "as_User (user_json u) = (if user_json ?v = user_json u then Some ?v else None)"
    by (simp add: as_User_def Let_def get_string_user_json user_keys_mem user_prop_simps
        object_keys_user_json key_order_of_keys)
  then show ?thesis by (simp only: v if_True simp_thms)
qed

lemma record_object_user_json: "record_object (user_json u) u"
  by (simp add: record_object_def object_keys_user_json keys_of_facts property_user_json
      user_keys_mem user_prop_simps)

lemma as_Users_user_json: "as_Users (map user_json us) = Some us"
  by (induction us) (simp_all add: as_User_user_json)

lemma JNull_not_user: "JNull \<notin> set (map user_json us)"
  by (auto simp: user_json_def)

lemma persist_data_nonempty: "persist_data w \<noteq> []"
  by (simp add: persist_data_def JSON_stringify_def str_def)

text \<open>
  What a persist writes has no surrogate outside a pair: the file holds that very text.
\<close>

lemma plain_no_surrogate: "plain c \<Longrightarrow> \<not> is_high_surrogate c \<and> \<not> is_low_surrogate c"
  by (simp add: plain_def is_high_surrogate_def is_low_surrogate_def)

lemma well_formed_plain_Cons: "plain c \<Longrightarrow> well_formed (c # cs) = well_formed cs"
  by (simp add: plain_no_surrogate)

lemma well_formed_plain_append: "\<forall>c \<in> set xs. plain c \<Longrightarrow> well_formed (xs @ ys) = well_formed ys"
  by (induction xs) (simp_all add: plain_no_surrogate)

lemma well_formed_append: "well_formed xs \<Longrightarrow> well_formed ys \<Longrightarrow> well_formed (xs @ ys)"
proof (induction xs rule: well_formed.induct)
  case 1
  then show ?case by simp
next
  case (2 c cs)
  show ?case
  proof (cases "is_high_surrogate c")
    case True
    with 2 show ?thesis by (cases cs) auto
  next
    case False
    with 2 show ?thesis by auto
  qed
qed

lemma hex_digit_plain: "d < 16 \<Longrightarrow> plain (hex_digit d)"
  by (simp add: hex_digit_def plain_def)

lemma unicode_escape_plain: "\<forall>u \<in> set (unicode_escape c). plain u"
  by (simp add: unicode_escape_def hex_digit_plain) (simp add: plain_def)

lemma well_formed_escape: "well_formed (unicode_escape c @ ys) = well_formed ys"
  by (rule well_formed_plain_append) (rule unicode_escape_plain)

lemma well_formed_quote_units: "well_formed (quote_units s)"
proof (induction s rule: quote_units.induct)
  case 1
  show ?case by simp
next
  case (2 c cs)
  show ?case
  proof (cases "two_char c")
    case True
    then have ih: "well_formed (quote_units cs)" using 2 unfolding two_char_def by blast
    have p: "plain 92" "plain 98" "plain 116" "plain 110" "plain 102" "plain 114" "plain 34"
      by (simp_all add: plain_def)
    from True ih p show ?thesis
      unfolding two_char_def by (auto simp: well_formed_plain_Cons simp del: well_formed.simps)
  next
    case n1: False
    then have ne: "c \<noteq> 8" "c \<noteq> 9" "c \<noteq> 10" "c \<noteq> 12" "c \<noteq> 13" "c \<noteq> 34" "c \<noteq> 92"
      by (simp_all add: two_char_def)
    note q = quote_units_other [OF n1, of cs]
    show ?thesis
    proof (cases "c < 32")
      case True
      have ih: "well_formed (quote_units cs)" using 2(8) ne True by blast
      have "quote_units (c # cs) = unicode_escape c @ quote_units cs" using q True by simp
      then show ?thesis using ih by (simp only: well_formed_escape)
    next
      case n2: False
      show ?thesis
      proof (cases "is_high_surrogate c")
        case hi: True
        show ?thesis
        proof (cases cs)
          case Nil
          have "quote_units (c # cs) = unicode_escape c @ []" using q n2 hi Nil by simp
          then show ?thesis by (simp only: well_formed_escape well_formed.simps)
        next
          case (Cons d ds)
          show ?thesis
          proof (cases "is_low_surrogate d")
            case True
            have ih: "well_formed (quote_units ds)" using 2(9) ne n2 hi Cons True by blast
            have "quote_units (c # cs) = c # d # quote_units ds" using q n2 hi Cons True by simp
            then show ?thesis using ih hi True by simp
          next
            case False
            have ih: "well_formed (quote_units cs)" using 2(10) ne n2 hi Cons False by blast
            have "quote_units (c # cs) = unicode_escape c @ quote_units cs"
              using q n2 hi Cons False by simp
            then show ?thesis using ih by (simp only: well_formed_escape)
          qed
        qed
      next
        case nh: False
        show ?thesis
        proof (cases "is_low_surrogate c")
          case True
          have ih: "well_formed (quote_units cs)" using 2(11) ne n2 nh True by blast
          have "quote_units (c # cs) = unicode_escape c @ quote_units cs" using q n2 nh True by simp
          then show ?thesis using ih by (simp only: well_formed_escape)
        next
          case False
          have ih: "well_formed (quote_units cs)" using 2(12) ne n2 nh False by blast
          have "quote_units (c # cs) = c # quote_units cs" using q n2 nh False by simp
          then show ?thesis using ih nh False by simp
        qed
      qed
    qed
  qed
qed

lemma well_formed_plain: "\<forall>c \<in> set xs. plain c \<Longrightarrow> well_formed xs"
  using well_formed_plain_append [of xs "[]"] by simp

lemma well_formed_Quote: "well_formed (QuoteJSONString s)"
proof -
  have "well_formed [34]" by (rule well_formed_plain) (simp add: plain_def)
  then show ?thesis
    unfolding QuoteJSONString_def
    by (intro well_formed_append well_formed_quote_units)
qed

lemma well_formed_join:
  "well_formed sep \<Longrightarrow> \<forall>x \<in> set xs. well_formed x \<Longrightarrow> well_formed (join sep xs)"
  by (induction sep xs rule: join.induct) (auto intro!: well_formed_append)

lemma well_formed_object:
  assumes "string_members ms" "\<forall>c \<in> set ind. plain c"
  shows "well_formed (stringify ind (JObject ms))"
proof -
  let ?ind2 = "ind @ [32, 32]"
  have ne: "ms \<noteq> []" using assms(1) by (simp add: string_members_def)
  have p: "plain 32" "plain 10" "plain 44" "plain 58" "plain 123" "plain 125" by (simp_all add: plain_def)
  have m: "\<forall>x \<in> set (map (member_text ?ind2) ms). well_formed x"
  proof
    fix x
    assume "x \<in> set (map (member_text ?ind2) ms)"
    then obtain k v where kv: "(k, v) \<in> set ms" "x = member_text ?ind2 (k, v)" by auto
    with assms(1) obtain s where "v = JString s" by (auto simp: string_members_def)
    with kv have x: "x = QuoteJSONString k @ [58, 32] @ QuoteJSONString s" by (simp add: member_text_def)
    have "well_formed [58, 32]" by (rule well_formed_plain) (simp add: plain_def)
    then show "well_formed x" unfolding x by (intro well_formed_append well_formed_Quote)
  qed
  have sep: "well_formed ([44, 10] @ ?ind2)" by (rule well_formed_plain) (use assms(2) p in auto)
  have j: "well_formed (join ([44, 10] @ ?ind2) (map (member_text ?ind2) ms))"
    using sep m by (rule well_formed_join)
  have e: "well_formed ([10] @ ind @ [125])" by (rule well_formed_plain) (use assms(2) p in auto)
  have "well_formed (([123, 10] @ ?ind2) @ join ([44, 10] @ ?ind2) (map (member_text ?ind2) ms) @ [10] @ ind @ [125])"
    by (rule well_formed_append [OF well_formed_plain well_formed_append [OF j e]]) (use assms(2) p in auto)
  then show ?thesis unfolding stringify_object [OF ne] by simp
qed

lemma well_formed_array:
  assumes "\<forall>x \<in> set xs. flat_object b x"
  shows "well_formed (stringify [] (JArray xs))"
proof (cases "xs = []")
  case True
  then show ?thesis by (simp add: str_def is_high_surrogate_def is_low_surrogate_def)
next
  case False
  have m: "\<forall>t \<in> set (map (stringify [32, 32]) xs). well_formed t"
  proof
    fix t
    assume "t \<in> set (map (stringify [32, 32]) xs)"
    then obtain x where x: "x \<in> set xs" "t = stringify [32, 32] x" by auto
    with assms obtain ms where "x = JObject ms" "string_members ms" by (auto simp: flat_object_def)
    with x show "well_formed t" using well_formed_object [of ms "[32, 32]"] by (simp add: plain_def)
  qed
  have sep: "well_formed [44, 10, 32, 32]" by (rule well_formed_plain) (simp add: plain_def)
  have j: "well_formed (join [44, 10, 32, 32] (map (stringify [32, 32]) xs))"
    using sep m by (rule well_formed_join)
  have e: "well_formed [10, 93]" by (rule well_formed_plain) (simp add: plain_def)
  have "well_formed ([91, 10, 32, 32] @ join [44, 10, 32, 32] (map (stringify [32, 32]) xs) @ [10, 93])"
    by (rule well_formed_append [OF well_formed_plain well_formed_append [OF j e]]) (simp add: plain_def)
  then show ?thesis using False by simp
qed

lemma well_formed_persist_data: "well_formed (persist_data w)"
  unfolding persist_data_def JSON_stringify_def
  by (rule well_formed_array [of _ 6]) (simp add: user_json_flat)

section \<open>Loading what was persisted\<close>

lemma foldl_set_fresh:
  "distinct (map fst es) \<Longrightarrow> fst ` set es \<inter> fst ` set acc = {} \<Longrightarrow>
   foldl (\<lambda>m (k, v). map_set m k v) acc es = acc @ es"
proof (induction es arbitrary: acc)
  case Nil
  then show ?case by simp
next
  case (Cons e es)
  obtain k v where e: "e = (k, v)" by (cases e)
  have f: "map_set acc k v = acc @ [(k, v)]"
    using Cons.prems(2) e by (auto simp: map_set_def intro!: update_fresh)
  have "foldl (\<lambda>m (k, v). map_set m k v) (acc @ [(k, v)]) es = (acc @ [(k, v)]) @ es"
    using Cons.prems e by (intro Cons.IH) auto
  then show ?case using e f by simp
qed

lemma new_Map_distinct: "distinct (map fst es) \<Longrightarrow> new_Map es = es"
  using foldl_set_fresh [of es "[]"] by (simp add: new_Map_def)

lemma entries_of_values:
  "\<forall>e \<in> set m. fst e = id' (snd e) \<Longrightarrow> map (\<lambda>user. (id' user, user)) (map_values m) = m"
  by (induction m) (auto simp: map_values_def)

lemma load_persisted:
  assumes "store_ok w" "disk w0 = FileContent (persist_data w)"
  shows "load w0 = Returns (w0\<lparr>users := users w\<rparr>)"
proof -
  have m: "new_Map (map (\<lambda>user. (id' user, user)) (map_values (users w))) = users w"
    using assms(1) by (simp add: store_ok_def entries_of_values new_Map_distinct)
  have p: "JSON_parse (persist_data w) = Some (JArray (map user_json (map_values (users w))))"
    by (simp add: persist_data_def JSON_roundtrip_users)
  show ?thesis
    using assms(2) m p persist_data_nonempty [of w] JNull_not_user [of "map_values (users w)"]
    by (simp add: load_def load_try_def readFile_def as_Users_user_json)
qed

lemma init_persisted:
  assumes "store_ok w" "disk w0 = FileContent (persist_data w)"
  shows "init w0 = Returns (w0\<lparr>users := users w\<rparr>)"
  using load_persisted [OF assms] assms(2) by (simp add: init_def mkdir_def)

lemma store_ok_users:
  "store_ok (w\<lparr>promises := ps, writeQueue := q\<rparr>) = store_ok w"
  by (simp add: store_ok_def)

lemma store_ok_set:
  assumes "store_ok w"
  shows "store_ok (w\<lparr>users := map_set (users w) (id' u) u\<rparr>)"
proof -
  have "\<forall>e \<in> set (AList.update (id' u) u (users w)). fst e = id' (snd e)"
    using assms set_update_subset [of "id' u" u "users w"] by (fastforce simp: store_ok_def)
  then show ?thesis using assms by (simp add: store_ok_def map_set_def distinct_update)
qed

lemma store_ok_delete:
  assumes "store_ok w"
  shows "store_ok (w\<lparr>users := map_delete (users w) i\<rparr>)"
proof -
  have "set (AList.delete i (users w)) \<subseteq> set (users w)" by (auto simp: AList.delete_eq)
  then show ?thesis using assms by (auto simp: store_ok_def map_delete_def distinct_delete)
qed

lemma store_ok_step: "store_ok w \<Longrightarrow> store_ok (step ev w)"
proof (cases ev)
  case (Create u)
  assume "store_ok w"
  then show ?thesis using Create store_ok_set [of w u]
    by (auto simp: create_def enqueueWrite_def Let_def store_ok_def)
next
  case (Update u)
  assume "store_ok w"
  then show ?thesis using Update store_ok_set [of w u]
    by (auto simp: update_def enqueueWrite_def Let_def store_ok_def)
next
  case (Delete i)
  assume "store_ok w"
  then show ?thesis using Delete store_ok_delete [of w i]
    by (auto simp: delete_def enqueueWrite_def Let_def store_ok_def)
qed (auto simp: store_ok_def job_def write_done_def write_failed_def
       split: option.splits promise.splits)

lemma store_ok_exec: "store_ok w \<Longrightarrow> store_ok (exec evs w)"
  by (induction evs arbitrary: w) (simp_all add: exec_Nil exec_Cons store_ok_step)

lemma foldl_set_ok:
  assumes "distinct (map fst acc)" "\<forall>e \<in> set acc. fst e = id' (snd e)"
    and "\<forall>e \<in> set es. fst e = id' (snd e)"
  shows "distinct (map fst (foldl (\<lambda>m (k, v). map_set m k v) acc es)) \<and>
         (\<forall>e \<in> set (foldl (\<lambda>m (k, v). map_set m k v) acc es). fst e = id' (snd e))"
  using assms
proof (induction es arbitrary: acc)
  case Nil
  then show ?case by simp
next
  case (Cons e es)
  obtain k v where e: "e = (k, v)" by (cases e)
  have 1: "distinct (map fst (map_set acc k v))"
    using Cons.prems(1) by (simp add: map_set_def distinct_update)
  have 2: "\<forall>e \<in> set (map_set acc k v). fst e = id' (snd e)"
    using Cons.prems(2,3) e set_update_subset [of k v acc] by (fastforce simp: map_set_def)
  show ?case using Cons.IH [OF 1 2] Cons.prems(3) e by simp
qed

lemma store_ok_new_Map: "store_ok (w\<lparr>users := new_Map (map (\<lambda>user. (id' user, user)) us)\<rparr>)"
  using foldl_set_ok [of "[]" "map (\<lambda>user. (id' user, user)) us"]
  by (simp add: store_ok_def new_Map_def)

lemma init_cases:
  assumes "init w = Returns w0"
  shows "w0 = w \<or> (\<exists>us. w0 = w\<lparr>users := new_Map (map (\<lambda>user. (id' user, user)) us)\<rparr>)"
  using assms
  by (auto simp: init_def load_def load_try_def split: sum.splits if_splits option.splits json.splits outcome.splits)

lemma init_ok:
  assumes "init (new_JsonStore path d) = Returns w0"
  shows "store_ok w0" and "chain_ok w0"
proof -
  from init_cases [OF assms]
  have c: "w0 = new_JsonStore path d \<or>
      (\<exists>us. w0 = (new_JsonStore path d)\<lparr>users := new_Map (map (\<lambda>user. (id' user, user)) us)\<rparr>)" .
  have "store_ok (new_JsonStore path d)" by (simp add: store_ok_def new_JsonStore_def)
  with c show "store_ok w0" using store_ok_new_Map by auto
  from c show "chain_ok w0" using chain_ok_new by auto
qed

lemma persist_data_users: "users w' = users w \<Longrightarrow> persist_data w' = persist_data w"
  by (simp add: persist_data_def)

lemma last_persist_settle:
  assumes lp: "last_persist h P w"
    and ok: "chain_ok w'" and pr: "promises w' = (promises w)[k := c]"
    and us: "users w' = users w"
    and r: "h = k \<Longrightarrow> \<forall>data. c = Running data \<longrightarrow> data = P"
    and f: "cell w' h = Some Fulfilled \<Longrightarrow> disk w' = FileContent P"
  shows "last_persist h P w'"
proof -
  have h: "h < length (promises w)" using lp by (simp add: last_persist_def)
  note cu = cell_upd_eq [OF h pr]
  have "data = P" if "cell w' h = Some (Running data)" for data
  proof (cases "h = k")
    case True
    with that cu r show ?thesis by simp
  next
    case False
    with that cu have "cell w h = Some (Running data)" by simp
    with lp show ?thesis by (simp add: last_persist_def)
  qed
  moreover have "Suc h = length (promises w')" using lp pr by (simp add: last_persist_def)
  moreover have "persist_data w' = P" using lp us by (simp add: last_persist_def persist_data_def)
  ultimately show ?thesis using ok f by (simp add: last_persist_def)
qed

lemma last_persist_job:
  assumes "last_persist h P w"
  shows "last_persist h P (job k w)"
proof (cases k w rule: job_cases)
  case idle
  with assms show ?thesis by simp
next
  case (start p)
  have hl: "h < length (promises w)" using assms by (simp add: last_persist_def)
  show ?thesis
  proof (rule last_persist_settle [OF assms, of _ k "Running (persist_data w)"])
    show "chain_ok (job k w)" using assms by (simp add: last_persist_def chain_ok_job)
    show "promises (job k w) = (promises w)[k := Running (persist_data w)]" using start(3) by simp
    show "users (job k w) = users w" using start(3) by simp
    show "\<forall>data. Running (persist_data w) = Running data \<longrightarrow> data = P"
      using assms by (simp add: last_persist_def)
    assume f: "cell (job k w) h = Some Fulfilled"
    have "cell (job k w) h = (if h = k then Some (Running (persist_data w)) else cell w h)"
      using cell_upd_eq [OF hl, of "job k w" k "Running (persist_data w)"] start(3) by simp
    with f have "cell w h = Some Fulfilled" by (simp split: if_splits)
    with assms have "disk w = FileContent P" by (simp add: last_persist_def)
    then show "disk (job k w) = FileContent P" using start(3) by simp
  qed
next
  case (skip p e)
  have hl: "h < length (promises w)" using assms by (simp add: last_persist_def)
  show ?thesis
  proof (rule last_persist_settle [OF assms, of _ k "Rejected e"])
    show "chain_ok (job k w)" using assms by (simp add: last_persist_def chain_ok_job)
    show "promises (job k w) = (promises w)[k := Rejected e]" using skip(3) by simp
    show "users (job k w) = users w" using skip(3) by simp
    show "\<forall>data. Rejected e = Running data \<longrightarrow> data = P" by simp
    assume f: "cell (job k w) h = Some Fulfilled"
    have "cell (job k w) h = (if h = k then Some (Rejected e) else cell w h)"
      using cell_upd_eq [OF hl, of "job k w" k "Rejected e"] skip(3) by simp
    with f have "cell w h = Some Fulfilled" by (simp split: if_splits)
    with assms have "disk w = FileContent P" by (simp add: last_persist_def)
    then show "disk (job k w) = FileContent P" using skip(3) by simp
  qed
qed

lemma running_not_last_fulfilled:
  assumes "chain_ok w" "Suc h = length (promises w)" "cell w k = Some (Running data)" "k \<noteq> h"
  shows "cell w h \<noteq> Some Fulfilled"
proof
  assume f: "cell w h = Some Fulfilled"
  from assms(3) have k: "k < length (promises w)" "promises w ! k = Running data"
    by (auto simp: cell_def split: if_splits)
  with assms(2,4) have kh: "k < h" by simp
  have hl: "h < length (promises w)" using assms(2) by simp
  from f hl have hf: "promises w ! h = Fulfilled" by (simp add: cell_def)
  have so: "started_ok (promises w)" using assms(1) by (simp add: chain_ok_def)
  from so hl kh hf have "promises w ! k = Fulfilled" unfolding started_ok_def by blast
  with k show False by simp
qed

lemma last_persist_write:
  assumes lp: "last_persist h P w" and run: "cell w k = Some (Running data)"
    and c: "c = Fulfilled \<and> d = FileContent data \<or> (\<exists>e. c = Rejected e)"
  shows "last_persist h P (w\<lparr>promises := (promises w)[k := c], disk := d\<rparr>)"
proof (rule last_persist_settle [OF lp, of _ k c])
  let ?w' = "w\<lparr>promises := (promises w)[k := c], disk := d\<rparr>"
  have hl: "h < length (promises w)" using lp by (simp add: last_persist_def)
  have cf: "c = Fulfilled \<or> (\<exists>e. c = Rejected e)" using c by blast
  show "chain_ok ?w'" using lp chain_ok_write [OF _ run cf, of d] by (simp add: last_persist_def)
  show "promises ?w' = (promises w)[k := c]" by simp
  show "users ?w' = users w" by simp
  show "\<forall>data. c = Running data \<longrightarrow> data = P" using c by auto
  assume f: "cell ?w' h = Some Fulfilled"
  have cu: "cell ?w' h = (if h = k then Some c else cell w h)"
    using cell_upd_eq [OF hl, of ?w' k c] by simp
  show "disk ?w' = FileContent P"
  proof (cases "h = k")
    case True
    with f cu have "c = Fulfilled" by simp
    with c have "d = FileContent data" by auto
    moreover from True run lp have "data = P" by (simp add: last_persist_def)
    ultimately show ?thesis by simp
  next
    case False
    with f cu have "cell w h = Some Fulfilled" by simp
    moreover have "cell w h \<noteq> Some Fulfilled"
      using running_not_last_fulfilled [of w h k data] lp run False by (simp add: last_persist_def)
    ultimately show ?thesis by simp
  qed
qed

lemma last_persist_step:
  assumes "last_persist h P w" "queue_event ev"
  shows "last_persist h P (step ev w)"
proof (cases ev)
  case (Job k)
  then show ?thesis using assms last_persist_job by simp
next
  case (WriteDone k)
  show ?thesis
  proof (cases "\<exists>data. cell w k = Some (Running data)")
    case True
    then obtain data where r: "cell w k = Some (Running data)" by blast
    then show ?thesis using WriteDone assms(1) last_persist_write [of h P w k data Fulfilled "FileContent data"]
      by (simp add: write_done_def)
  next
    case False
    then have "write_done k w = w" by (auto simp: write_done_def split: option.splits promise.splits)
    then show ?thesis using WriteDone assms by simp
  qed
next
  case (WriteFailed k c d)
  show ?thesis
  proof (cases "\<exists>data. cell w k = Some (Running data)")
    case True
    then obtain data where r: "cell w k = Some (Running data)" by blast
    then show ?thesis using WriteFailed assms(1)
        last_persist_write [of h P w k data "Rejected (ErrnoException c)" d]
      by (simp add: write_failed_def)
  next
    case False
    then have "write_failed k c d w = w" by (auto simp: write_failed_def split: option.splits promise.splits)
    then show ?thesis using WriteFailed assms by simp
  qed
qed (use assms in simp_all)

lemma last_persist_exec:
  "last_persist h P w \<Longrightarrow> \<forall>ev \<in> set evs. queue_event ev \<Longrightarrow> last_persist h P (exec evs w)"
  by (induction evs arbitrary: w) (simp_all add: exec_Nil exec_Cons last_persist_step)

lemma last_persist_create:
  assumes "chain_ok w" "create x w = (Inr h, w1)"
  shows "last_persist h (persist_data w1) w1"
proof -
  note a = create_accepted [OF assms(2)]
  have "step (Create x) w = w1" using assms(2) by simp
  with assms(1) have ok: "chain_ok w1" using chain_ok_step [of w "Create x"] by simp
  have "cell w1 h = Some (Pending (writeQueue w))" using a(1,3) by (simp add: cell_def)
  with ok a(1,3) show ?thesis by (simp add: last_persist_def)
qed

section \<open>What the write queue guarantees\<close>

lemma log_ok_new: "log_ok (new_JsonStore path d)"
  by (simp add: log_ok_def new_JsonStore_def)

lemma log_ok_users [simp]: "log_ok (w\<lparr>users := u\<rparr>) = log_ok w"
  by (simp add: log_ok_def)

lemma log_ok_enqueue: "log_ok w \<Longrightarrow> log_ok (snd (enqueueWrite w))"
  by (auto simp: log_ok_def enqueueWrite_def Let_def nth_append)

lemma log_ok_settle:
  assumes "log_ok w" "promises w' = (promises w)[h := c]" "started w' = started w"
    and "\<forall>p. c \<noteq> Pending p"
  shows "log_ok w'"
  unfolding log_ok_def
proof (intro conjI ballI)
  show "sorted_wrt (<) (started w')" using assms(1,3) by (simp add: log_ok_def)
  fix k
  assume "k \<in> set (started w')"
  with assms(1,3) have k: "k < length (promises w)" "\<forall>p. promises w ! k \<noteq> Pending p"
    by (auto simp: log_ok_def)
  show "k < length (promises w')" using k assms(2) by simp
  show "\<forall>p. promises w' ! k \<noteq> Pending p"
  proof (cases "k = h")
    case True
    with k assms(2,4) show ?thesis by simp
  next
    case False
    with k assms(2) show ?thesis by simp
  qed
qed

lemma log_ok_job:
  assumes "chain_ok w" "log_ok w"
  shows "log_ok (job h w)"
proof (cases h w rule: job_cases)
  case idle
  with assms show ?thesis by simp
next
  case (start p)
  from start(1) have h: "h < length (promises w)" "promises w ! h = Pending p"
    by (auto simp: cell_def split: if_splits)
  have po: "pending_ok (promises w)" using assms(1) by (simp add: chain_ok_def)
  have before: "k < h" if "k \<in> set (started w)" for k
  proof (rule ccontr)
    assume "\<not> k < h"
    from that assms(2) have k: "k < length (promises w)" "\<forall>q. promises w ! k \<noteq> Pending q"
      by (auto simp: log_ok_def)
    from k(2) h(2) have "k \<noteq> h" by auto
    with \<open>\<not> k < h\<close> have "h < k" by simp
    with po k(1) h(2) have "\<exists>q. promises w ! k = Pending q" unfolding pending_ok_def by blast
    with k(2) show False by blast
  qed
  show ?thesis
    unfolding log_ok_def
  proof (intro conjI ballI)
    show "sorted_wrt (<) (started (job h w))"
      using assms(2) start(3) before by (auto simp: log_ok_def sorted_wrt_append)
    fix k
    assume "k \<in> set (started (job h w))"
    with start(3) have "k = h \<or> k \<in> set (started w)" by auto
    then have k: "k < length (promises w)" "k \<noteq> h \<longrightarrow> (\<forall>q. promises w ! k \<noteq> Pending q)"
      using h assms(2) by (auto simp: log_ok_def)
    show "k < length (promises (job h w))" using k start(3) by simp
    show "\<forall>q. promises (job h w) ! k \<noteq> Pending q"
    proof (cases "k = h")
      case True
      with h start(3) show ?thesis by simp
    next
      case False
      with k start(3) show ?thesis by simp
    qed
  qed
next
  case (skip p e)
  show ?thesis
    by (rule log_ok_settle [OF assms(2), of _ h "Rejected e"]) (simp_all add: skip(3))
qed

lemma log_ok_step:
  assumes "chain_ok w" "log_ok w"
  shows "log_ok (step ev w)"
proof (cases ev)
  case (Create u)
  then show ?thesis using assms(2) log_ok_enqueue [of "w\<lparr>users := map_set (users w) (id' u) u\<rparr>"]
    by (simp add: create_def Let_def split_beta)
next
  case (Update u)
  then show ?thesis using assms(2) log_ok_enqueue [of "w\<lparr>users := map_set (users w) (id' u) u\<rparr>"]
    by (simp add: update_def Let_def split_beta)
next
  case (Delete i)
  then show ?thesis using assms(2) log_ok_enqueue [of "w\<lparr>users := map_delete (users w) i\<rparr>"]
    by (simp add: delete_def Let_def split_beta)
next
  case (Job h)
  then show ?thesis using assms log_ok_job by simp
next
  case (WriteDone h)
  show ?thesis
  proof (cases "\<exists>data. cell w h = Some (Running data)")
    case True
    then obtain data where "cell w h = Some (Running data)" by blast
    then show ?thesis using WriteDone log_ok_settle [OF assms(2), of "write_done h w" h Fulfilled]
      by (simp add: write_done_def)
  next
    case False
    then have "write_done h w = w" by (auto simp: write_done_def split: option.splits promise.splits)
    then show ?thesis using WriteDone assms by simp
  qed
next
  case (WriteFailed h c d)
  show ?thesis
  proof (cases "\<exists>data. cell w h = Some (Running data)")
    case True
    then obtain data where "cell w h = Some (Running data)" by blast
    then show ?thesis using WriteFailed
        log_ok_settle [OF assms(2), of "write_failed h c d w" h "Rejected (ErrnoException c)"]
      by (simp add: write_failed_def)
  next
    case False
    then have "write_failed h c d w = w" by (auto simp: write_failed_def split: option.splits promise.splits)
    then show ?thesis using WriteFailed assms by simp
  qed
qed (use assms in simp_all)

lemma log_ok_exec: "chain_ok w \<Longrightarrow> log_ok w \<Longrightarrow> log_ok (exec evs w)"
  by (induction evs arbitrary: w) (simp_all add: exec_Nil exec_Cons chain_ok_step log_ok_step)

lemma actions_in_order:
  assumes "init (new_JsonStore path d) = Returns w0"
  shows "sorted_wrt (<) (started (exec evs w0))" and "distinct (started (exec evs w0))"
proof -
  from init_cases [OF assms] have "started w0 = []" "promises w0 = [Fulfilled]"
    by (auto simp: new_JsonStore_def)
  then have "log_ok w0" by (simp add: log_ok_def)
  with init_ok(2) [OF assms] have "log_ok (exec evs w0)" by (rule log_ok_exec)
  then show "sorted_wrt (<) (started (exec evs w0))" by (simp add: log_ok_def)
  then show "distinct (started (exec evs w0))" by (simp add: strict_sorted_iff)
qed

text \<open>At most one persist action is in flight.\<close>

lemma one_write_in_flight:
  assumes "chain_ok w" "cell w h = Some (Running d)" "cell w k = Some (Running d')"
  shows "h = k"
proof (rule ccontr)
  assume ne: "h \<noteq> k"
  from assms(2) have h: "h < length (promises w)" "promises w ! h = Running d"
    by (auto simp: cell_def split: if_splits)
  from assms(3) have k: "k < length (promises w)" "promises w ! k = Running d'"
    by (auto simp: cell_def split: if_splits)
  have so: "started_ok (promises w)" using assms(1) by (simp add: chain_ok_def)
  show False
  proof (cases "h < k")
    case True
    with so k have "promises w ! h = Fulfilled" unfolding started_ok_def by blast
    with h show False by simp
  next
    case False
    with ne have "k < h" by simp
    with so h have "promises w ! k = Fulfilled" unfolding started_ok_def by blast
    with k show False by simp
  qed
qed

text \<open>
  What it does not: once the promise in \<open>writeQueue\<close> is rejected, the job of the next
  promise rejects it with the same reason and never calls its action, and that promise is
  the new \<open>writeQueue\<close>.
\<close>

lemma rejected_chain_skips_action:
  assumes "cell w (writeQueue w) = Some (Rejected e)" "create x w = (Inr h, w1)"
  shows "cell (job h w1) h = Some (Rejected e) \<and> started (job h w1) = started w \<and>
         disk (job h w1) = disk w \<and> writeQueue (job h w1) = h"
proof -
  note a = create_accepted [OF assms(2)]
  have q: "writeQueue w < length (promises w)" using assms(1) by (auto simp: cell_def split: if_splits)
  have 1: "cell w1 h = Some (Pending (writeQueue w))" using a(1,3) by (simp add: cell_def)
  have 2: "cell w1 (writeQueue w) = Some (Rejected e)"
    using assms(1) a(3) q by (simp add: cell_def nth_append)
  have j: "job h w1 = w1\<lparr>promises := (promises w1)[h := Rejected e]\<rparr>" by (rule job_skip [OF 1 2])
  have "h < length (promises w1)" using a(1,3) by simp
  then show ?thesis using j a by (simp add: cell_def)
qed

text \<open>
  C1. The claim fails on the code at the first failed write. Two records are created; the
  write of the first persist fails with \<open>ENOSPC\<close>; the job of the second promise then
  rejects it with that same error: the second persist action is never called (the log of
  started actions holds the first only, the disk is untouched) although both records are
  in the map, and the second caller is handed the first caller's failure.
\<close>

theorem write_queue_poisoned:
  "cell (exec [Create ann, Create bob, Job 1, WriteFailed 1 ''ENOSPC'' FileAbsent, Job 2] store0) 2
     = Some (Rejected (ErrnoException ''ENOSPC'')) \<and>
   started (exec [Create ann, Create bob, Job 1, WriteFailed 1 ''ENOSPC'' FileAbsent, Job 2] store0) = [1] \<and>
   disk (exec [Create ann, Create bob, Job 1, WriteFailed 1 ''ENOSPC'' FileAbsent, Job 2] store0) = FileAbsent \<and>
   getAll (exec [Create ann, Create bob, Job 1, WriteFailed 1 ''ENOSPC'' FileAbsent, Job 2] store0) = [ann, bob]"
  by (simp add: sample_defs op_defs job_def write_failed_def cell_def Let_def)

section \<open>Persist, then load\<close>

text \<open>
  C6. Take a store initialised from any file, in any state a run reaches, and a \<open>create x\<close>
  that is accepted there. Once the write queue has run and the promise of that \<open>create\<close> is
  fulfilled, a second store constructed on the disk as it then is initialises to exactly
  the map the first store holds, and its \<open>getById\<close> returns \<open>x\<close>: persist followed by load
  gives back every record.
\<close>

theorem roundtrip_after_create:
  assumes "init (new_JsonStore path d) = Returns w0"
    and "create x (exec evs0 w0) = (Inr h, w1)"
    and "\<forall>ev \<in> set evs. queue_event ev"
    and "cell (exec evs w1) h = Some Fulfilled"
  shows "init (new_JsonStore path' (disk (exec evs w1)))
           = Returns ((new_JsonStore path' (disk (exec evs w1)))\<lparr>users := users w1\<rparr>) \<and>
         getById ((new_JsonStore path' (disk (exec evs w1)))\<lparr>users := users w1\<rparr>) (id' x) = Inr x \<and>
         users (exec evs w1) = users w1"
proof -
  let ?w = "exec evs0 w0"
  have ok: "chain_ok ?w" "store_ok ?w"
    using init_ok [OF assms(1)] by (simp_all add: chain_ok_exec store_ok_exec)
  have "step (Create x) ?w = w1" using assms(2) by simp
  then have s1: "store_ok w1" using store_ok_step [OF ok(2), of "Create x"] by simp
  have lp: "last_persist h (persist_data w1) (exec evs w1)"
    using last_persist_exec [OF last_persist_create [OF ok(1) assms(2)] assms(3)] .
  with assms(4) have dk: "disk (exec evs w1) = FileContent (persist_data w1)"
    by (simp add: last_persist_def)
  have "init (new_JsonStore path' (disk (exec evs w1)))
      = Returns ((new_JsonStore path' (disk (exec evs w1)))\<lparr>users := users w1\<rparr>)"
    by (rule init_persisted [OF s1]) (simp add: new_JsonStore_def dk)
  moreover have "getById ((new_JsonStore path' (disk (exec evs w1)))\<lparr>users := users w1\<rparr>) (id' x) = Inr x"
    using create_accepted(2) [OF assms(2)] by (simp add: getById_def get_after_set)
  moreover have "users (exec evs w1) = users w1" using assms(3) by (rule users_queue_exec)
  ultimately show ?thesis by simp
qed

theorem roundtrip_after_create_witness:
  "init (new_JsonStore ''./data/users.json'' FileAbsent) = Returns store0 \<and>
   create ann (exec [] store0) = (Inr 1, store_ann) \<and>
   cell (exec [Job 1, WriteDone 1] store_ann) 1 = Some Fulfilled \<and>
   init (new_JsonStore ''restart'' (disk (exec [Job 1, WriteDone 1] store_ann)))
     = Returns ((new_JsonStore ''restart'' (disk (exec [Job 1, WriteDone 1] store_ann)))
                  \<lparr>users := users store_ann\<rparr>) \<and>
   getById ((new_JsonStore ''restart'' (disk (exec [Job 1, WriteDone 1] store_ann)))
              \<lparr>users := users store_ann\<rparr>) (id' ann) = Inr ann"
proof -
  have q: "\<forall>ev \<in> set [Job 1, WriteDone 1]. queue_event ev" by simp
  have c: "create ann (exec [] store0) = (Inr 1, store_ann)" using create_ann by (simp add: exec_def)
  from roundtrip_after_create [OF init_store0 c q done_ann, of "''restart''"] init_store0 c done_ann
  show ?thesis by blast
qed

section \<open>The format of the file\<close>

text \<open>
  A write in flight was started by the reaction job of its promise, and carries the text
  \<open>persist\<close> made of the map at that moment.
\<close>

lemma running_origin_step:
  assumes "cell (step ev w) h = Some (Running data)"
  shows "cell w h = Some (Running data) \<or>
         (ev = Job h \<and> data = persist_data w \<and>
          (\<exists>p. cell w h = Some (Pending p) \<and> cell w p = Some Fulfilled))"
proof (cases ev)
  case (Create u)
  have "cell (snd (create u w)) h = Some (Running data) \<Longrightarrow> cell w h = Some (Running data)"
    by (auto simp: create_def enqueueWrite_def Let_def cell_def nth_append split: if_splits)
  with assms Create show ?thesis by simp
next
  case (Update u)
  have "cell (snd (update u w)) h = Some (Running data) \<Longrightarrow> cell w h = Some (Running data)"
    by (auto simp: update_def enqueueWrite_def Let_def cell_def nth_append split: if_splits)
  with assms Update show ?thesis by simp
next
  case (Delete i)
  have "cell (snd (delete i w)) h = Some (Running data) \<Longrightarrow> cell w h = Some (Running data)"
    by (auto simp: delete_def enqueueWrite_def Let_def cell_def nth_append split: if_splits)
  with assms Delete show ?thesis by simp
next
  case (Job k)
  show ?thesis
  proof (cases k w rule: job_cases)
    case idle
    with assms Job show ?thesis by simp
  next
    case (start p)
    from assms Job have r: "cell (job k w) h = Some (Running data)" by simp
    then have hl: "h < length (promises w)"
      using start(3) by (auto simp: cell_def split: if_splits)
    have "promises (job k w) = (promises w)[k := Running (persist_data w)]"
      using start(3) by simp
    from cell_upd_eq [OF hl this] r
    have "h = k \<and> data = persist_data w \<or> cell w h = Some (Running data)"
      by (auto split: if_splits)
    with Job start(1,2) show ?thesis by auto
  next
    case (skip p e)
    from assms Job have r: "cell (job k w) h = Some (Running data)" by simp
    then have hl: "h < length (promises w)"
      using skip(3) by (auto simp: cell_def split: if_splits)
    have "promises (job k w) = (promises w)[k := Rejected e]"
      using skip(3) by simp
    from cell_upd_eq [OF hl this] r show ?thesis by (auto split: if_splits)
  qed
next
  case (WriteDone k)
  have "cell (write_done k w) h = Some (Running data) \<Longrightarrow> cell w h = Some (Running data)"
    by (auto simp: write_done_def cell_def nth_list_update
        split: option.splits promise.splits if_splits)
  with assms WriteDone show ?thesis by simp
next
  case (WriteFailed k c d)
  have "cell (write_failed k c d w) h = Some (Running data) \<Longrightarrow> cell w h = Some (Running data)"
    by (auto simp: write_failed_def cell_def nth_list_update
        split: option.splits promise.splits if_splits)
  with assms WriteFailed show ?thesis by simp
qed (use assms in simp_all)

lemma running_origin:
  assumes "cell (exec evs w0) h = Some (Running data)"
    and "\<And>data'. cell w0 h \<noteq> Some (Running data')"
  shows "\<exists>evs1 evs2 p. evs = evs1 @ Job h # evs2 \<and>
           cell (exec evs1 w0) h = Some (Pending p) \<and> cell (exec evs1 w0) p = Some Fulfilled \<and>
           data = persist_data (exec evs1 w0)"
  using assms(1)
proof (induction evs rule: rev_induct)
  case Nil
  with assms(2) show ?case by (simp add: exec_Nil)
next
  case (snoc ev evs)
  then have "cell (step ev (exec evs w0)) h = Some (Running data)"
    by (simp add: exec_append exec_Cons exec_Nil)
  from running_origin_step [OF this]
  show ?case
  proof
    assume "cell (exec evs w0) h = Some (Running data)"
    from snoc.IH [OF this] obtain evs1 evs2 p where
      "evs = evs1 @ Job h # evs2" "cell (exec evs1 w0) h = Some (Pending p)"
      "cell (exec evs1 w0) p = Some Fulfilled" "data = persist_data (exec evs1 w0)"
      by blast
    then have "evs @ [ev] = evs1 @ Job h # (evs2 @ [ev]) \<and>
        cell (exec evs1 w0) h = Some (Pending p) \<and> cell (exec evs1 w0) p = Some Fulfilled \<and>
        data = persist_data (exec evs1 w0)"
      by simp
    then show ?thesis by blast
  next
    assume "ev = Job h \<and> data = persist_data (exec evs w0) \<and>
        (\<exists>p. cell (exec evs w0) h = Some (Pending p) \<and> cell (exec evs w0) p = Some Fulfilled)"
    then obtain p where "evs @ [ev] = evs @ Job h # [] \<and>
        cell (exec evs w0) h = Some (Pending p) \<and> cell (exec evs w0) p = Some Fulfilled \<and>
        data = persist_data (exec evs w0)"
      by auto
    then show ?thesis by blast
  qed
qed

lemma init_no_write:
  assumes "init (new_JsonStore path d) = Returns w0"
  shows "cell w0 h \<noteq> Some (Running data)"
proof -
  from init_cases [OF assms] have "promises w0 = [Fulfilled]" by (auto simp: new_JsonStore_def)
  then show ?thesis by (auto simp: cell_def split: if_splits)
qed

lemma record_objects_users: "list_all2 record_object (map user_json us) us"
  by (simp add: list_all2_map1 list.rel_refl record_object_user_json)

text \<open>
  An object is written with its keys in its own order, and read back with them: a file
  with Cat's record, whose keys are not in the order of the type, is loaded as it is and
  persisted as it was.
\<close>

lemma own_order_kept:
  "user_json cat =
     JObject [(str ''name'', JString (str ''Cat'')),
              (str ''email'', JString (str ''cat@x.com'')),
              (str ''id'', JString (str ''u4'')),
              (str ''updated_at'', JString (str ''2024-03-02T00:00:00.000Z'')),
              (str ''created_at'', JString (str ''2024-03-01T00:00:00.000Z''))]"
  "as_User (user_json cat) = Some cat"
  "init (new_JsonStore path (FileContent (JSON_stringify (JArray [user_json cat])))) =
     Returns ((new_JsonStore path (FileContent (JSON_stringify (JArray [user_json cat]))))
                \<lparr>users := [(id' cat, cat)]\<rparr>)"
  "persist_data ((new_JsonStore path d)\<lparr>users := [(id' cat, cat)]\<rparr>) =
     JSON_stringify (JArray [user_json cat])"
proof -
  show "user_json cat =
     JObject [(str ''name'', JString (str ''Cat'')),
              (str ''email'', JString (str ''cat@x.com'')),
              (str ''id'', JString (str ''u4'')),
              (str ''updated_at'', JString (str ''2024-03-02T00:00:00.000Z'')),
              (str ''created_at'', JString (str ''2024-03-01T00:00:00.000Z''))]"
    by (auto simp: user_json_def cat_def key_order_of.rep_eq user_keys_def user_prop_def str_def)
  show "as_User (user_json cat) = Some cat" by (rule as_User_user_json)
  let ?w = "(new_JsonStore path d)\<lparr>users := [(id' cat, cat)]\<rparr>"
  show p: "persist_data ?w = JSON_stringify (JArray [user_json cat])"
    by (simp add: persist_data_def map_values_def)
  have "store_ok ?w" by (simp add: store_ok_def)
  from init_persisted [OF this, of "new_JsonStore path (FileContent (persist_data ?w))"]
  show "init (new_JsonStore path (FileContent (JSON_stringify (JArray [user_json cat])))) =
     Returns ((new_JsonStore path (FileContent (JSON_stringify (JArray [user_json cat]))))
                \<lparr>users := [(id' cat, cat)]\<rparr>)"
    unfolding p by (simp add: new_JsonStore_def)
qed

text \<open>
  C8, as the code has it. Take a store initialised from any file that holds \<open>User\<close>
  objects, or none. Every write that completes leaves in the file the text that \<open>persist\<close>
  made when the reaction job of its promise called it: the text of a JSON array, which
  \<open>JSON.parse\<close> reads back, with one object for each record the map held at that moment,
  in the order of the map. Each object has the keys \<open>id\<close>, \<open>name\<close>, \<open>email\<close>,
  \<open>created_at\<close> and \<open>updated_at\<close>, each once and no other, each holding the string of
  the record's field of that name, whatever that string is.
\<close>

theorem persisted_file_format:
  assumes "init (new_JsonStore path d) = Returns w0"
    and "cell (exec evs w0) h = Some (Running data)"
  shows "disk (step (WriteDone h) (exec evs w0)) = FileContent data \<and>
         cell (step (WriteDone h) (exec evs w0)) h = Some Fulfilled \<and>
         (\<exists>evs1 evs2 p js.
            evs = evs1 @ Job h # evs2 \<and>
            cell (exec evs1 w0) h = Some (Pending p) \<and>
            cell (exec evs1 w0) p = Some Fulfilled \<and>
            data = JSON_stringify (JArray js) \<and>
            JSON_parse data = Some (JArray js) \<and>
            list_all2 record_object js (getAll (exec evs1 w0)))"
proof -
  have h: "h < length (promises (exec evs w0))"
    using assms(2) by (auto simp: cell_def split: if_splits)
  have 1: "disk (step (WriteDone h) (exec evs w0)) = FileContent data"
    using assms(2) by (simp add: write_done_def)
  have 2: "cell (step (WriteDone h) (exec evs w0)) h = Some Fulfilled"
    using assms(2) h by (simp add: write_done_def cell_def)
  from running_origin [OF assms(2) init_no_write [OF assms(1)]]
  obtain evs1 evs2 p where o: "evs = evs1 @ Job h # evs2"
    "cell (exec evs1 w0) h = Some (Pending p)" "cell (exec evs1 w0) p = Some Fulfilled"
    "data = persist_data (exec evs1 w0)"
    by blast
  let ?us = "getAll (exec evs1 w0)"
  have d: "data = JSON_stringify (JArray (map user_json ?us))"
    using o(4) by (simp add: persist_data_def getAll_def)
  then have "JSON_parse data = Some (JArray (map user_json ?us))"
    by (simp add: JSON_roundtrip_users)
  with o(1,2,3) d record_objects_users [of ?us]
  have "evs = evs1 @ Job h # evs2 \<and>
        cell (exec evs1 w0) h = Some (Pending p) \<and>
        cell (exec evs1 w0) p = Some Fulfilled \<and>
        data = JSON_stringify (JArray (map user_json ?us)) \<and>
        JSON_parse data = Some (JArray (map user_json ?us)) \<and>
        list_all2 record_object (map user_json ?us) (getAll (exec evs1 w0))"
    by simp
  then have "\<exists>evs1 evs2 p js.
            evs = evs1 @ Job h # evs2 \<and>
            cell (exec evs1 w0) h = Some (Pending p) \<and>
            cell (exec evs1 w0) p = Some Fulfilled \<and>
            data = JSON_stringify (JArray js) \<and>
            JSON_parse data = Some (JArray js) \<and>
            list_all2 record_object js (getAll (exec evs1 w0))"
    by blast
  with 1 2 show ?thesis by simp
qed

theorem persisted_file_format_witness:
  "init (new_JsonStore ''./data/users.json'' FileAbsent) = Returns store0 \<and>
   cell (exec [Create ann, Job 1] store0) 1 = Some (Running (persist_data store_ann)) \<and>
   disk (step (WriteDone 1) (exec [Create ann, Job 1] store0)) = FileContent (persist_data store_ann) \<and>
   (\<exists>j. JSON_parse (persist_data store_ann) = Some (JArray [j]) \<and> record_object j ann)"
proof -
  have r: "cell (exec [Create ann, Job 1] store0) 1 = Some (Running (persist_data store_ann))"
    by (simp add: sample_defs op_defs run_defs)
  from persisted_file_format [OF init_store0 r]
  obtain evs1 evs2 js where
    d: "disk (step (WriteDone 1) (exec [Create ann, Job 1] store0)) = FileContent (persist_data store_ann)"
    and e: "[Create ann, Job 1] = evs1 @ Job 1 # evs2"
    and p: "JSON_parse (persist_data store_ann) = Some (JArray js)"
    and l: "list_all2 record_object js (getAll (exec evs1 store0))"
    by blast
  from e have "evs1 = [Create ann]"
    by (auto simp: append_eq_Cons_conv Cons_eq_append_conv)
  then have "getAll (exec evs1 store0) = [ann]" by (simp add: sample_defs op_defs)
  with l obtain j where "js = [j]" "record_object j ann"
    by (auto simp: list_all2_Cons2)
  with p have "\<exists>j. JSON_parse (persist_data store_ann) = Some (JArray [j]) \<and> record_object j ann"
    by blast
  with init_store0 r d show ?thesis by simp
qed

text \<open>
  C8 as stated fails: the file written for Ann's record parses to an object without the
  keys \<open>createdAt\<close> and \<open>updatedAt\<close>; and \<open>create\<close> accepts a record whose \<open>created_at\<close>
  is no timestamp, which is then what the object holds.
\<close>

theorem persisted_keys_counterexample:
  "disk (exec [Create ann, Job 1, WriteDone 1] store0) = FileContent (persist_data store_ann) \<and>
   JSON_parse (persist_data store_ann) = Some (JArray [user_json ann]) \<and>
   object_keys (user_json ann) =
     [str ''id'', str ''name'', str ''email'', str ''created_at'', str ''updated_at''] \<and>
   property (user_json ann) (str ''createdAt'') = None \<and>
   property (user_json ann) (str ''updatedAt'') = None \<and>
   fst (create ann_twin store0) = Inr 1 \<and>
   property (user_json ann_twin) (str ''created_at'') = Some (JString (str ''later''))"
proof -
  have d: "disk (exec [Create ann, Job 1, WriteDone 1] store0) = FileContent (persist_data store_ann)"
    by (simp add: sample_defs op_defs run_defs)
  have "persist_data store_ann = JSON_stringify (JArray (map user_json [ann]))"
    by (simp add: persist_data_def sample_defs op_defs)
  then have p: "JSON_parse (persist_data store_ann) = Some (JArray [user_json ann])"
    using JSON_roundtrip_users [of "[ann]"] by simp
  have k: "object_keys (user_json ann) =
     [str ''id'', str ''name'', str ''email'', str ''created_at'', str ''updated_at'']"
    by (simp add: object_keys_user_json ann_def declared_keys.rep_eq user_keys_def)
  have n: "property (user_json ann) (str ''createdAt'') = None"
    "property (user_json ann) (str ''updatedAt'') = None"
    by (simp_all add: property_def user_json_def ann_def declared_keys.rep_eq user_keys_def str_def)
  have t: "fst (create ann_twin store0) = Inr 1"
    by (simp add: sample_defs op_defs)
  have "property (user_json ann_twin) (str ''created_at'') = Some (JString (created_at ann_twin))"
    using property_user_json [OF user_keys_mem(4), of ann_twin] by (simp add: user_prop_simps)
  then have c: "property (user_json ann_twin) (str ''created_at'') = Some (JString (str ''later''))"
    by (simp add: ann_twin_def)
  from d p k n t c show ?thesis by simp
qed

section \<open>Initialisation\<close>

text \<open>
  C9. When the backing file exists and is empty (\<open>readFile\<close> returns the empty string),
  \<open>init\<close> returns and the collection is empty.
\<close>

theorem empty_file_starts_empty:
  "readFile (FileContent []) = Inr [] \<and>
   init (new_JsonStore path (FileContent [])) = Returns (new_JsonStore path (FileContent [])) \<and>
   getAll (new_JsonStore path (FileContent [])) = []"
  by (simp add: init_def load_def load_try_def mkdir_def readFile_def new_JsonStore_def getAll_def
      map_values_def)

theorem empty_file_starts_empty_witness:
  "init (new_JsonStore ''./data/users.json'' (FileContent []))
     = Returns (new_JsonStore ''./data/users.json'' (FileContent [])) \<and>
   getAll (new_JsonStore ''./data/users.json'' (FileContent [])) = []"
  using empty_file_starts_empty [of "''./data/users.json''"] by simp

lemma parse_samples:
  "JSON_parse (str ''{\"id\": '') = None"
  "JSON_parse (str ''{}'') = Some (JObject [])"
  "JSON_parse (str ''[null]'') = Some (JArray [JNull])"
  "JSON_parse (str ''[1]'') = Some (JArray [JNumber (str ''1'')])"
  "JSON_parse [] = None"
  by code_simp+

lemma as_User_JNull: "as_User JNull = None"
  by (simp add: as_User_def user_json_def Let_def)

lemma as_Users_no_null: "as_Users xs = Some us \<Longrightarrow> JNull \<notin> set xs"
proof (induction xs arbitrary: us)
  case (Cons x xs)
  then show ?case
    by (cases "as_User x"; cases "as_Users xs") (auto simp: as_User_JNull)
qed simp

lemma init_array:
  assumes "JSON_parse data = Some (JArray xs)" and "JNull \<notin> set xs"
  shows "init (new_JsonStore path (FileContent data)) =
     (case as_Users xs of
        None \<Rightarrow> IllTyped
      | Some us \<Rightarrow> Returns ((new_JsonStore path (FileContent data))
                             \<lparr>users := new_Map (map (\<lambda>user. (id' user, user)) us)\<rparr>))"
proof -
  have "data \<noteq> []" using assms(1) parse_samples(5) by auto
  with assms show ?thesis
    by (simp add: init_def load_def load_try_def mkdir_def readFile_def new_JsonStore_def
        split: option.splits)
qed

text \<open>
  C7, as the code has it. \<open>init\<close> returns with an empty collection when the file is
  absent and its directory exists or can be made; it throws when the directory cannot be
  made. With the file present it throws when the file cannot be read (any error code but
  \<open>ENOENT\<close>), when its content is not empty and is not JSON, when the content is JSON but
  no array, and when it is an array that holds \<open>null\<close>. It does not throw on an empty
  file, where the collection starts empty, nor on any JSON array without \<open>null\<close>, whatever
  its elements are; when they are \<open>User\<close> objects the collection holds them under their
  ids.
\<close>

theorem init_outcomes:
  "init (new_JsonStore path FileAbsent) = Returns (new_JsonStore path FileAbsent) \<and>
   getAll (new_JsonStore path FileAbsent) = [] \<and>
   init (new_JsonStore path (DirUncreatable c)) = Throws (ErrnoException c) \<and>
   (c \<noteq> ''ENOENT'' \<longrightarrow>
      init (new_JsonStore path (FileUnreadable c)) = Throws (ErrnoException c)) \<and>
   (data \<noteq> [] \<longrightarrow> JSON_parse data = None \<longrightarrow>
      init (new_JsonStore path (FileContent data)) = Throws SyntaxError) \<and>
   (data \<noteq> [] \<longrightarrow> JSON_parse data = Some j \<longrightarrow> (\<forall>xs. j \<noteq> JArray xs) \<longrightarrow>
      init (new_JsonStore path (FileContent data)) = Throws TypeError) \<and>
   (data \<noteq> [] \<longrightarrow> JSON_parse data = Some (JArray xs) \<longrightarrow> JNull \<in> set xs \<longrightarrow>
      init (new_JsonStore path (FileContent data)) = Throws TypeError) \<and>
   init (new_JsonStore path (FileContent [])) = Returns (new_JsonStore path (FileContent [])) \<and>
   getAll (new_JsonStore path (FileContent [])) = [] \<and>
   (JSON_parse data = Some (JArray xs) \<longrightarrow> JNull \<notin> set xs \<longrightarrow>
      (\<forall>e. init (new_JsonStore path (FileContent data)) \<noteq> Throws e)) \<and>
   (JSON_parse data = Some (JArray xs) \<longrightarrow> as_Users xs = Some us \<longrightarrow>
      init (new_JsonStore path (FileContent data)) =
        Returns ((new_JsonStore path (FileContent data))
                   \<lparr>users := new_Map (map (\<lambda>user. (id' user, user)) us)\<rparr>))"
proof -
  have 1: "init (new_JsonStore path FileAbsent) = Returns (new_JsonStore path FileAbsent) \<and>
      getAll (new_JsonStore path FileAbsent) = [] \<and>
      init (new_JsonStore path (DirUncreatable c)) = Throws (ErrnoException c) \<and>
      (c \<noteq> ''ENOENT'' \<longrightarrow>
         init (new_JsonStore path (FileUnreadable c)) = Throws (ErrnoException c)) \<and>
      init (new_JsonStore path (FileContent [])) = Returns (new_JsonStore path (FileContent [])) \<and>
      getAll (new_JsonStore path (FileContent [])) = []"
    by (simp add: init_def load_def load_try_def mkdir_def readFile_def new_JsonStore_def
        getAll_def map_values_def)
  have 2: "(data \<noteq> [] \<longrightarrow> JSON_parse data = None \<longrightarrow>
        init (new_JsonStore path (FileContent data)) = Throws SyntaxError) \<and>
      (data \<noteq> [] \<longrightarrow> JSON_parse data = Some j \<longrightarrow> (\<forall>xs. j \<noteq> JArray xs) \<longrightarrow>
        init (new_JsonStore path (FileContent data)) = Throws TypeError) \<and>
      (data \<noteq> [] \<longrightarrow> JSON_parse data = Some (JArray xs) \<longrightarrow> JNull \<in> set xs \<longrightarrow>
        init (new_JsonStore path (FileContent data)) = Throws TypeError)"
    by (cases j) (simp_all add: init_def load_def load_try_def mkdir_def readFile_def
        new_JsonStore_def)
  have 3: "\<forall>e. init (new_JsonStore path (FileContent data)) \<noteq> Throws e"
    if "JSON_parse data = Some (JArray xs)" "JNull \<notin> set xs"
    using init_array [OF that, of path] by (simp split: option.splits)
  have 4: "init (new_JsonStore path (FileContent data)) =
        Returns ((new_JsonStore path (FileContent data))
                   \<lparr>users := new_Map (map (\<lambda>user. (id' user, user)) us)\<rparr>)"
    if "JSON_parse data = Some (JArray xs)" "as_Users xs = Some us"
    using init_array [OF that(1) as_Users_no_null [OF that(2)], of path] that(2) by simp
  from 1 2 3 4 show ?thesis by blast
qed

theorem init_outcomes_witness:
  "init (new_JsonStore ''users.json'' FileAbsent) = Returns (new_JsonStore ''users.json'' FileAbsent) \<and>
   init (new_JsonStore ''users.json'' (FileUnreadable ''EACCES'')) = Throws (ErrnoException ''EACCES'') \<and>
   init (new_JsonStore ''users.json'' (FileContent (str ''{\"id\": ''))) = Throws SyntaxError \<and>
   init (new_JsonStore ''users.json'' (FileContent (str ''{}''))) = Throws TypeError \<and>
   init (new_JsonStore ''users.json'' (FileContent (str ''[null]''))) = Throws TypeError \<and>
   init (new_JsonStore ''users.json'' (FileContent (str ''[1]''))) \<noteq> Throws TypeError \<and>
   init (new_JsonStore ''users.json'' (FileContent (str ''[1]''))) \<noteq> Throws SyntaxError \<and>
   init (new_JsonStore ''users.json'' (FileContent (persist_data store_ann_bob))) =
     Returns ((new_JsonStore ''users.json'' (FileContent (persist_data store_ann_bob)))
                \<lparr>users := [(id' ann, ann), (id' bob, bob)]\<rparr>)"
proof -
  have n: "str ''{\"id\": '' \<noteq> []" "str ''{}'' \<noteq> []" "str ''[null]'' \<noteq> []" "''EACCES'' \<noteq> ''ENOENT''"
    "\<forall>xs. JObject [] \<noteq> JArray xs" "JNull \<in> set [JNull]" "JNull \<notin> set [JNumber (str ''1'')]"
    by (simp_all add: str_def)
  have p: "persist_data store_ann_bob = JSON_stringify (JArray (map user_json [ann, bob]))"
    by (simp add: persist_data_def sample_defs op_defs)
  have "JSON_parse (persist_data store_ann_bob) = Some (JArray (map user_json [ann, bob]))"
    unfolding p by (rule JSON_roundtrip_users)
  moreover have "as_Users (map user_json [ann, bob]) = Some [ann, bob]"
    by (rule as_Users_user_json)
  moreover have "new_Map (map (\<lambda>user. (id' user, user)) [ann, bob]) = [(id' ann, ann), (id' bob, bob)]"
    using new_Map_distinct [of "map (\<lambda>user. (id' user, user)) [ann, bob]"]
    by (simp add: ann_def bob_def str_def)
  moreover note
    init_outcomes [of "''users.json''" "''EACCES''" "str ''{\"id\": ''" "JNull" "[]" "[]"]
    init_outcomes [of "''users.json''" "''EACCES''" "str ''{}''" "JObject []" "[]" "[]"]
    init_outcomes [of "''users.json''" "''EACCES''" "str ''[null]''" "JArray [JNull]" "[JNull]" "[]"]
    init_outcomes [of "''users.json''" "''EACCES''" "str ''[1]''" "JNull" "[JNumber (str ''1'')]" "[]"]
    init_outcomes [of "''users.json''" "''EACCES''" "persist_data store_ann_bob" "JNull"
      "map user_json [ann, bob]" "[ann, bob]"]
    n parse_samples
  ultimately show ?thesis by simp
qed

text \<open>
  C7 as stated fails: the empty file is no JSON text, and the array \<open>[1]\<close> is no list of
  users, yet on both \<open>init\<close> returns without an error; and with the file absent \<open>init\<close>
  throws when \<open>mkdir\<close> does.
\<close>

theorem init_counterexample:
  "JSON_parse [] = None \<and>
   init (new_JsonStore ''users.json'' (FileContent []))
     = Returns (new_JsonStore ''users.json'' (FileContent [])) \<and>
   JSON_parse (str ''[1]'') = Some (JArray [JNumber (str ''1'')]) \<and>
   as_Users [JNumber (str ''1'')] = None \<and>
   init (new_JsonStore ''users.json'' (FileContent (str ''[1]''))) = IllTyped \<and>
   readFile (DirUncreatable ''EACCES'') = Inl (ErrnoException ''ENOENT'') \<and>
   init (new_JsonStore ''users.json'' (DirUncreatable ''EACCES'')) = Throws (ErrnoException ''EACCES'')"
proof -
  have a: "as_Users [JNumber (str ''1'')] = None"
    by (simp add: as_User_def user_json_def Let_def)
  have s: "str ''[1]'' \<noteq> []" by (simp add: str_def)
  have "init (new_JsonStore ''users.json'' (FileContent (str ''[1]''))) = IllTyped"
    using a s parse_samples(4)
    by (simp add: init_def load_def load_try_def mkdir_def readFile_def new_JsonStore_def)
  then show ?thesis using a parse_samples
    by (simp add: init_def load_def load_try_def mkdir_def readFile_def new_JsonStore_def)
qed

end
